theory Spec2Isabelle
  imports Main "HOL-Library.AList"
begin

section \<open>Data model\<close>

text \<open>
  The solver of \<^verbatim>\<open>generate.py\<close> works on a puzzle structure that module
  \<^verbatim>\<open>crossword\<close> supplies: slots (class \<^verbatim>\<open>Variable\<close>, compared on its four
  attributes), the word list, the overlap table and the neighbour query. That module is
  not part of the sources, so the structure is a parameter of every function below: a
  record whose fields are exactly what the solver reads.

  Python sets (the word list, each domain, the slots, a slot's neighbours) are lists here:
  the list order stands for the order in which the set is iterated, which Python leaves
  open. Python dictionaries are association lists in insertion order
  (\<^const>\<open>map_of\<close> reads a key, \<^const>\<open>AList.update\<close> writes one,
  \<^const>\<open>AList.delete\<close> is \<^verbatim>\<open>del\<close>).
\<close>

datatype direction = ACROSS | DOWN

record variable =
  var_i :: int
  var_j :: int
  direction :: direction
  var_length :: int

record crossword =
  variables :: "variable list"
  words :: "string list"
  overlaps :: "variable \<times> variable \<Rightarrow> (int \<times> int) option"
  neighbors :: "variable \<Rightarrow> variable list"

type_synonym domains = "(variable \<times> string list) list"

type_synonym assignment = "(variable \<times> string) list"

text \<open>The exceptions the solver's own statements can raise.\<close>

datatype error = KeyError | IndexError | TypeError | ValueError

text \<open>\<^verbatim>\<open>w[k]\<close> on a string: a negative index counts from the end, an index out of
  range raises.\<close>

definition py_index :: "string \<Rightarrow> int \<Rightarrow> error + char" where
  "py_index w k =
     (let n = int (length w); k' = (if k < 0 then n + k else k)
      in if 0 \<le> k' \<and> k' < n then Inr (w ! nat k') else Inl IndexError)"

text \<open>\<^verbatim>\<open>s.remove(w)\<close> on a set: raises when \<^verbatim>\<open>w\<close> is not a member.\<close>

definition set_remove :: "string \<Rightarrow> string list \<Rightarrow> error + string list" where
  "set_remove w s = (if w \<in> set s then Inr (remove1 w s) else Inl KeyError)"

text \<open>\<^verbatim>\<open>d[k]\<close> on a dictionary.\<close>

definition dict_get :: "('k \<times> 'v) list \<Rightarrow> 'k \<Rightarrow> error + 'v" where
  "dict_get d k = (case map_of d k of None \<Rightarrow> Inl KeyError | Some v \<Rightarrow> Inr v)"

section \<open>The domain store and node consistency\<close>

text \<open>\<^verbatim>\<open>__init__\<close>: one copy of the word list per slot.\<close>

definition init_domains :: "crossword \<Rightarrow> domains" where
  "init_domains cw = fold (\<lambda>var d. AList.update var (words cw) d) (variables cw) []"

text \<open>The inner loop of \<^verbatim>\<open>enforce_node_consistency\<close>: it runs over a copy of the
  domain and removes from the domain itself.\<close>

fun enforce_node_consistency_words ::
  "variable \<Rightarrow> string list \<Rightarrow> string list \<Rightarrow> error + string list" where
  "enforce_node_consistency_words var [] cur = Inr cur"
| "enforce_node_consistency_words var (word # rest) cur =
     (if int (length word) \<noteq> var_length var
      then (case set_remove word cur of
              Inl e \<Rightarrow> Inl e
            | Inr cur' \<Rightarrow> enforce_node_consistency_words var rest cur')
      else enforce_node_consistency_words var rest cur)"

fun enforce_node_consistency_vars :: "variable list \<Rightarrow> domains \<Rightarrow> error + domains" where
  "enforce_node_consistency_vars [] d = Inr d"
| "enforce_node_consistency_vars (var # vars) d =
     (case dict_get d var of
        Inl e \<Rightarrow> Inl e
      | Inr ws \<Rightarrow>
          (case enforce_node_consistency_words var ws ws of
             Inl e \<Rightarrow> Inl e
           | Inr cur \<Rightarrow> enforce_node_consistency_vars vars (AList.update var cur d)))"

definition enforce_node_consistency :: "crossword \<Rightarrow> domains \<Rightarrow> error + domains" where
  "enforce_node_consistency cw d = enforce_node_consistency_vars (variables cw) d"

section \<open>Arc consistency\<close>

text \<open>The inner loop of \<^verbatim>\<open>revise\<close>: the flag \<^verbatim>\<open>revision\<close> starts true and
  every word of \<^verbatim>\<open>y\<close> is indexed, also after a match (there is no break).\<close>

fun revise_ywords :: "char \<Rightarrow> int \<Rightarrow> string list \<Rightarrow> bool \<Rightarrow> error + bool" where
  "revise_ywords xcommon oj [] revision = Inr revision"
| "revise_ywords xcommon oj (yword # rest) revision =
     (case py_index yword oj of
        Inl e \<Rightarrow> Inl e
      | Inr ycommon \<Rightarrow>
          revise_ywords xcommon oj rest (if xcommon = ycommon then False else revision))"

text \<open>The outer loop: over a copy of the domain of \<^verbatim>\<open>x\<close>, carrying the domain
  itself and the flag \<^verbatim>\<open>atleastOneRevision\<close>.\<close>

fun revise_xwords ::
  "int \<Rightarrow> int \<Rightarrow> string list \<Rightarrow> string list \<Rightarrow> string list \<times> bool
     \<Rightarrow> error + string list \<times> bool" where
  "revise_xwords oi oj ywords [] st = Inr st"
| "revise_xwords oi oj ywords (xword # rest) (cur, atleastOneRevision) =
     (case py_index xword oi of
        Inl e \<Rightarrow> Inl e
      | Inr xcommon \<Rightarrow>
          (case revise_ywords xcommon oj ywords True of
             Inl e \<Rightarrow> Inl e
           | Inr revision \<Rightarrow>
               if revision
               then (case set_remove xword cur of
                       Inl e \<Rightarrow> Inl e
                     | Inr cur' \<Rightarrow> revise_xwords oi oj ywords rest (cur', True))
               else revise_xwords oi oj ywords rest (cur, atleastOneRevision)))"

definition revise :: "crossword \<Rightarrow> domains \<Rightarrow> variable \<Rightarrow> variable \<Rightarrow> error + bool \<times> domains" where
  "revise cw d x y =
     (case overlaps cw (x, y) of
        None \<Rightarrow> Inr (False, d)
      | Some (oi, oj) \<Rightarrow>
          (case dict_get d x of
             Inl e \<Rightarrow> Inl e
           | Inr xwords \<Rightarrow>
               (case dict_get d y of
                  Inl e \<Rightarrow> Inl e
                | Inr ywords \<Rightarrow>
                    (case revise_xwords oi oj ywords xwords (xwords, False) of
                       Inl e \<Rightarrow> Inl e
                     | Inr (cur, atleastOneRevision) \<Rightarrow>
                         Inr (atleastOneRevision, AList.update x cur d)))))"

text \<open>The size of a store: the measure under which the worklist loop terminates.\<close>

definition store_size :: "domains \<Rightarrow> nat" where
  "store_size d = sum_list (map (\<lambda>p. length (snd p)) d)"

lemma set_remove_length:
  "set_remove w s = Inr s' \<Longrightarrow> Suc (length s') = length s"
  by (auto simp: set_remove_def length_remove1 split: if_splits)
    (metis Suc_pred length_pos_if_in_set)

lemma revise_xwords_length:
  "revise_xwords oi oj ywords xs (cur, b) = Inr (cur', b') \<Longrightarrow>
     length cur' \<le> length cur \<and> (b' \<and> \<not> b \<longrightarrow> length cur' < length cur) \<and> (b \<longrightarrow> b')"
proof (induction xs arbitrary: cur b)
  case Nil
  then show ?case by simp
next
  case (Cons x xs)
  show ?case
  proof (cases "py_index x oi")
    case (Inl e)
    with Cons.prems show ?thesis by simp
  next
    case (Inr xc)
    show ?thesis
    proof (cases "revise_ywords xc oj ywords True")
      case (Inl e)
      with Cons.prems Inr show ?thesis by simp
    next
      case rv: (Inr revision)
      show ?thesis
      proof (cases revision)
        case True
        show ?thesis
        proof (cases "set_remove x cur")
          case (Inl e)
          with Cons.prems Inr rv True show ?thesis by simp
        next
          case rm: (Inr cur1)
          from Cons.prems Inr rv True rm
          have "revise_xwords oi oj ywords xs (cur1, True) = Inr (cur', b')" by simp
          from Cons.IH[OF this] set_remove_length[OF rm] show ?thesis by auto
        qed
      next
        case False
        from Cons.prems Inr rv False
        have "revise_xwords oi oj ywords xs (cur, b) = Inr (cur', b')" by simp
        from Cons.IH[OF this] show ?thesis .
      qed
    qed
  qed
qed

lemma store_size_update:
  "map_of d x = Some ws \<Longrightarrow>
     store_size (AList.update x ws' d) + length ws = store_size d + length ws'"
  by (induction d) (auto simp: store_size_def)

lemma revise_store_size:
  assumes "revise cw d x y = Inr (b, d')"
  shows "store_size d' \<le> store_size d \<and> (b \<longrightarrow> store_size d' < store_size d)"
proof (cases "overlaps cw (x, y)")
  case None
  with assms show ?thesis by (simp add: revise_def)
next
  case (Some ov)
  obtain oi oj where ov: "ov = (oi, oj)" by (cases ov)
  from assms Some ov obtain xwords ywords cur where
    x: "map_of d x = Some xwords" and
    r: "revise_xwords oi oj ywords xwords (xwords, False) = Inr (cur, b)" and
    d': "d' = AList.update x cur d"
    by (auto simp: revise_def dict_get_def split: option.splits sum.splits)
  from revise_xwords_length[OF r] store_size_update[OF x, of cur] d'
  show ?thesis by auto
qed

text \<open>The worklist loop of \<^verbatim>\<open>ac3\<close>; the queue is first in, first out.\<close>

function ac3_loop :: "crossword \<Rightarrow> (variable \<times> variable) list \<Rightarrow> domains \<Rightarrow> error + bool \<times> domains" where
  "ac3_loop cw [] d = Inr (True, d)"
| "ac3_loop cw ((X, Y) # queue) d =
     (case revise cw d X Y of
        Inl e \<Rightarrow> Inl e
      | Inr (revised, d') \<Rightarrow>
          if revised
          then (case dict_get d' X of
                  Inl e \<Rightarrow> Inl e
                | Inr cur \<Rightarrow>
                    if length cur = 0 then Inr (False, d')
                    else ac3_loop cw
                           (queue @ map (\<lambda>Z. (Z, X)) (filter (\<lambda>Z. Z \<noteq> Y) (neighbors cw X))) d')
          else ac3_loop cw queue d')"
  by pat_completeness auto
termination
proof (relation "measures [\<lambda>(cw, queue, d). store_size d, \<lambda>(cw, queue, d). length queue]")
  show "wf (measures [\<lambda>(cw, queue, d). store_size d, \<lambda>(cw, queue, d). length queue])"
    by simp
next
  fix cw X Y queue d x2 revised d' cur
  assume "revise cw d X Y = Inr x2" "(revised, d') = x2" "revised"
  then have "revise cw d X Y = Inr (True, d')" by auto
  from revise_store_size[OF this]
  show "((cw, queue @ map (\<lambda>Z. (Z, X)) (filter (\<lambda>Z. Z \<noteq> Y) (neighbors cw X)), d'),
         (cw, (X, Y) # queue, d))
        \<in> measures [\<lambda>(cw, queue, d). store_size d, \<lambda>(cw, queue, d). length queue]"
    by simp
next
  fix cw X Y queue d x2 revised d'
  assume "revise cw d X Y = Inr x2" "(revised, d') = x2" "\<not> revised"
  then have "revise cw d X Y = Inr (False, d')" by auto
  from revise_store_size[OF this]
  show "((cw, queue, d'), (cw, (X, Y) # queue, d))
        \<in> measures [\<lambda>(cw, queue, d). store_size d, \<lambda>(cw, queue, d). length queue]"
    by auto
qed

text \<open>\<^verbatim>\<open>ac3(arcs)\<close>: with no explicit list the queue starts with every arc
  \<^verbatim>\<open>(var, neighbor)\<close>.\<close>

definition ac3 ::
  "crossword \<Rightarrow> (variable \<times> variable) list option \<Rightarrow> domains \<Rightarrow> error + bool \<times> domains" where
  "ac3 cw arcs d =
     (let queue = (case arcs of
                     Some given \<Rightarrow> given
                   | None \<Rightarrow> concat (map (\<lambda>var. map (\<lambda>neighbor. (var, neighbor)) (neighbors cw var))
                                         (variables cw)))
      in ac3_loop cw queue d)"

section \<open>The search\<close>

definition assignment_complete :: "crossword \<Rightarrow> assignment \<Rightarrow> bool" where
  "assignment_complete cw a = (length a = length (variables cw))"

text \<open>The loop of \<^verbatim>\<open>consistent\<close> over the neighbours of one slot. The overlap is
  read before the test \<^verbatim>\<open>neighbor in assignment\<close> and subscripted after it, so an
  overlap \<^verbatim>\<open>None\<close> raises only for an assigned neighbour.\<close>

fun consistent_neighbors :: "crossword \<Rightarrow> assignment \<Rightarrow> variable \<Rightarrow> variable list \<Rightarrow> error + bool" where
  "consistent_neighbors cw a var [] = Inr True"
| "consistent_neighbors cw a var (neighbor # rest) =
     (let arc = overlaps cw (var, neighbor)
      in if neighbor \<in> set (map fst a)
         then (case dict_get a var of
                 Inl e \<Rightarrow> Inl e
               | Inr w \<Rightarrow>
                   (case arc of
                      None \<Rightarrow> Inl TypeError
                    | Some (oi, oj) \<Rightarrow>
                        (case py_index w oi of
                           Inl e \<Rightarrow> Inl e
                         | Inr c \<Rightarrow>
                             (case dict_get a neighbor of
                                Inl e \<Rightarrow> Inl e
                              | Inr w' \<Rightarrow>
                                  (case py_index w' oj of
                                     Inl e \<Rightarrow> Inl e
                                   | Inr c' \<Rightarrow>
                                       if c \<noteq> c' then Inr False
                                       else consistent_neighbors cw a var rest)))))
         else consistent_neighbors cw a var rest)"

text \<open>The loop of \<^verbatim>\<open>consistent\<close> over the assigned slots, with the list
  \<^verbatim>\<open>distinct\<close> of the words seen so far.\<close>

fun consistent_vars :: "crossword \<Rightarrow> assignment \<Rightarrow> variable list \<Rightarrow> string list \<Rightarrow> error + bool" where
  "consistent_vars cw a [] distinct_words = Inr True"
| "consistent_vars cw a (var # rest) distinct_words =
     (case dict_get a var of
        Inl e \<Rightarrow> Inl e
      | Inr w \<Rightarrow>
          if w \<in> set distinct_words then Inr False
          else if int (length w) \<noteq> var_length var then Inr False
          else (case consistent_neighbors cw a var (neighbors cw var) of
                  Inl e \<Rightarrow> Inl e
                | Inr ok \<Rightarrow>
                    if ok then consistent_vars cw a rest (distinct_words @ [w])
                    else Inr False))"

definition consistent :: "crossword \<Rightarrow> assignment \<Rightarrow> error + bool" where
  "consistent cw a = consistent_vars cw a (map fst a) []"

text \<open>\<^verbatim>\<open>order_domain_values\<close>. An entry of \<^verbatim>\<open>values_Dict\<close> is the pair of a
  word and its cost.\<close>

definition get_cost :: "string \<times> nat \<Rightarrow> nat" where
  "get_cost values_dict = snd values_dict"

fun order_domain_values_cost ::
  "domains \<Rightarrow> assignment \<Rightarrow> string \<Rightarrow> variable list \<Rightarrow> nat \<Rightarrow> error + nat" where
  "order_domain_values_cost d a val [] cost = Inr cost"
| "order_domain_values_cost d a val (neighbor # rest) cost =
     (if neighbor \<notin> set (map fst a)
      then (case dict_get d neighbor of
              Inl e \<Rightarrow> Inl e
            | Inr neighbor_values \<Rightarrow>
                order_domain_values_cost d a val rest
                  (fold (\<lambda>neighbor_value c. if neighbor_value = val then c + 1 else c)
                     neighbor_values cost))
      else order_domain_values_cost d a val rest cost)"

fun order_domain_values_entries ::
  "crossword \<Rightarrow> domains \<Rightarrow> variable \<Rightarrow> assignment \<Rightarrow> string list \<Rightarrow> (string \<times> nat) list
     \<Rightarrow> error + (string \<times> nat) list" where
  "order_domain_values_entries cw d var a [] values_Dict = Inr values_Dict"
| "order_domain_values_entries cw d var a (val # rest) values_Dict =
     (case order_domain_values_cost d a val (neighbors cw var) 0 of
        Inl e \<Rightarrow> Inl e
      | Inr cost \<Rightarrow> order_domain_values_entries cw d var a rest (values_Dict @ [(val, cost)]))"

text \<open>\<^verbatim>\<open>sort(key=..., reverse=True)\<close> is stable and descending: the stable ascending
  sort on the negated key.\<close>

definition order_domain_values ::
  "crossword \<Rightarrow> domains \<Rightarrow> variable \<Rightarrow> assignment \<Rightarrow> error + string list" where
  "order_domain_values cw d var a =
     (case dict_get d var of
        Inl e \<Rightarrow> Inl e
      | Inr vals \<Rightarrow>
          (case order_domain_values_entries cw d var a vals [] of
             Inl e \<Rightarrow> Inl e
           | Inr values_Dict \<Rightarrow>
               Inr (map fst (sort_key (\<lambda>e. - int (get_cost e)) values_Dict))))"

text \<open>\<^verbatim>\<open>select_unassigned_variable\<close>. An entry of \<^verbatim>\<open>variables\<close> is the triple
  of a slot, the size of its domain and the number of its neighbours.\<close>

definition get_var :: "variable \<times> nat \<times> nat \<Rightarrow> variable" where
  "get_var variables_Dict = fst variables_Dict"

definition get_mrv :: "variable \<times> nat \<times> nat \<Rightarrow> nat" where
  "get_mrv variables_Dict = fst (snd variables_Dict)"

definition get_degree :: "variable \<times> nat \<times> nat \<Rightarrow> nat" where
  "get_degree variables_Dict = snd (snd variables_Dict)"

text \<open>\<^verbatim>\<open>xs.remove(x)\<close> on a list: the first occurrence goes, and a missing element
  raises. \<^verbatim>\<open>xs[n]\<close> on a list with an index that is never negative.\<close>

definition list_remove :: "'a \<Rightarrow> 'a list \<Rightarrow> error + 'a list" where
  "list_remove x xs = (if x \<in> set xs then Inr (remove1 x xs) else Inl ValueError)"

definition list_get :: "'a list \<Rightarrow> nat \<Rightarrow> error + 'a" where
  "list_get xs n = (if n < length xs then Inr (xs ! n) else Inl IndexError)"

fun select_unassigned_variable_keys ::
  "variable \<Rightarrow> variable list \<Rightarrow> variable list \<Rightarrow> error + variable list" where
  "select_unassigned_variable_keys var [] variables_new = Inr variables_new"
| "select_unassigned_variable_keys var (key # rest) variables_new =
     (if var = key
      then (case list_remove var variables_new of
              Inl e \<Rightarrow> Inl e
            | Inr variables_new' \<Rightarrow> select_unassigned_variable_keys var rest variables_new')
      else select_unassigned_variable_keys var rest variables_new)"

fun select_unassigned_variable_old ::
  "variable list \<Rightarrow> variable list \<Rightarrow> variable list \<Rightarrow> error + variable list" where
  "select_unassigned_variable_old [] keys variables_new = Inr variables_new"
| "select_unassigned_variable_old (var # rest) keys variables_new =
     (case select_unassigned_variable_keys var keys variables_new of
        Inl e \<Rightarrow> Inl e
      | Inr variables_new' \<Rightarrow> select_unassigned_variable_old rest keys variables_new')"

fun select_unassigned_variable_entries ::
  "crossword \<Rightarrow> domains \<Rightarrow> variable list \<Rightarrow> (variable \<times> nat \<times> nat) list
     \<Rightarrow> error + (variable \<times> nat \<times> nat) list" where
  "select_unassigned_variable_entries cw d [] entries = Inr entries"
| "select_unassigned_variable_entries cw d (var # rest) entries =
     (case dict_get d var of
        Inl e \<Rightarrow> Inl e
      | Inr ws \<Rightarrow>
          select_unassigned_variable_entries cw d rest
            (entries @ [(var, length ws, length (neighbors cw var))]))"

text \<open>The loop that collects the ties: it runs over every pair of adjacent entries of
  the sorted list and appends the second of each pair with equal \<^verbatim>\<open>mrv\<close>.\<close>

fun select_unassigned_variable_ties ::
  "(variable \<times> nat \<times> nat) list \<Rightarrow> (variable \<times> nat \<times> nat) list \<Rightarrow> (variable \<times> nat \<times> nat) list" where
  "select_unassigned_variable_ties (e # e' # rest) variables_tied =
     select_unassigned_variable_ties (e' # rest)
       (if get_mrv e = get_mrv e' then variables_tied @ [e'] else variables_tied)"
| "select_unassigned_variable_ties rest variables_tied = variables_tied"

definition select_unassigned_variable ::
  "crossword \<Rightarrow> domains \<Rightarrow> assignment \<Rightarrow> error + variable" where
  "select_unassigned_variable cw d a =
     (case select_unassigned_variable_old (variables cw) (map fst a) (variables cw) of
        Inl e \<Rightarrow> Inl e
      | Inr variables_new \<Rightarrow>
          (case select_unassigned_variable_entries cw d variables_new [] of
             Inl e \<Rightarrow> Inl e
           | Inr entries \<Rightarrow>
               (let vs = sort_key get_mrv entries
                in if length vs = 1 then map_sum id get_var (list_get vs 0)
                   else (case list_get vs 0 of
                           Inl e \<Rightarrow> Inl e
                         | Inr e0 \<Rightarrow>
                             (case list_get vs 1 of
                                Inl e \<Rightarrow> Inl e
                              | Inr e1 \<Rightarrow>
                                  if get_mrv e0 \<noteq> get_mrv e1 then Inr (get_var e0)
                                  else map_sum id get_var
                                         (list_get
                                            (sort_key (\<lambda>e. - int (get_degree e))
                                               (select_unassigned_variable_ties vs [e0]))
                                            0))))))"

subsection \<open>The selected slot is unassigned\<close>

lemma count_list_remove1:
  "count_list (remove1 x xs) u = (if u = x then count_list xs u - 1 else count_list xs u)"
  by (induction xs) auto

lemma select_keys_count:
  "select_unassigned_variable_keys var keys vn = Inr vn' \<Longrightarrow>
     count_list vn' u = (if u = var then count_list vn u - count_list keys var else count_list vn u)"
proof (induction keys arbitrary: vn)
  case Nil
  then show ?case by simp
next
  case (Cons key keys)
  show ?case
  proof (cases "var = key")
    case True
    with Cons.prems obtain vn1 where
      rm: "list_remove var vn = Inr vn1" and
      rest: "select_unassigned_variable_keys var keys vn1 = Inr vn'"
      by (auto split: sum.splits)
    from rm have vn1: "vn1 = remove1 var vn"
      by (auto simp: list_remove_def split: if_splits)
    from Cons.IH[OF rest] vn1 True show ?thesis
      by (auto simp: count_list_remove1)
  next
    case False
    with Cons.prems have "select_unassigned_variable_keys var keys vn = Inr vn'" by simp
    from Cons.IH[OF this] False show ?thesis by auto
  qed
qed

lemma select_old_count:
  "select_unassigned_variable_old vs keys vn = Inr vn' \<Longrightarrow>
     count_list vn' u = count_list vn u - count_list vs u * count_list keys u"
proof (induction vs arbitrary: vn)
  case Nil
  then show ?case by simp
next
  case (Cons v vs)
  from Cons.prems obtain vn1 where
    k: "select_unassigned_variable_keys v keys vn = Inr vn1" and
    rest: "select_unassigned_variable_old vs keys vn1 = Inr vn'"
    by (auto split: sum.splits)
  from Cons.IH[OF rest] select_keys_count[OF k, of u] show ?case
    by (auto simp: algebra_simps)
qed

lemma select_old_set:
  assumes "select_unassigned_variable_old vs keys vs = Inr vn'"
  shows "set vn' = set vs - set keys"
proof -
  have c: "count_list vn' u = count_list vs u - count_list vs u * count_list keys u" for u
    by (rule select_old_count[OF assms])
  have "u \<in> set vn' \<longleftrightarrow> u \<in> set vs \<and> u \<notin> set keys" for u
  proof (cases "u \<in> set keys")
    case True
    then have "count_list keys u > 0" using count_list_0_iff[of keys u] by auto
    then have "count_list vs u \<le> count_list vs u * count_list keys u" by simp
    with c[of u] have "count_list vn' u = 0" by simp
    with True show ?thesis by (simp add: count_list_0_iff)
  next
    case False
    with c[of u] have "count_list vn' u = count_list vs u" by simp
    with False show ?thesis by (metis count_list_0_iff)
  qed
  then show ?thesis by auto
qed

lemma select_entries_map:
  "select_unassigned_variable_entries cw d vn acc = Inr es \<Longrightarrow>
     map get_var es = map get_var acc @ vn"
  by (induction vn arbitrary: acc) (auto simp: get_var_def split: sum.splits)

lemma select_ties_set:
  "set (select_unassigned_variable_ties vs acc) \<subseteq> set vs \<union> set acc"
  by (induction vs acc rule: select_unassigned_variable_ties.induct) auto

lemma select_ties_nonempty:
  "acc \<noteq> [] \<Longrightarrow> select_unassigned_variable_ties vs acc \<noteq> []"
  by (induction vs acc rule: select_unassigned_variable_ties.induct) auto

lemma list_get_in_set: "list_get xs n = Inr x \<Longrightarrow> x \<in> set xs"
  by (auto simp: list_get_def split: if_splits)

lemma select_unassigned_variable_unassigned:
  assumes "select_unassigned_variable cw d a = Inr var"
  shows "var \<in> set (variables cw) - set (map fst a)"
proof -
  from assms obtain vn es where
    vn: "select_unassigned_variable_old (variables cw) (map fst a) (variables cw) = Inr vn" and
    es: "select_unassigned_variable_entries cw d vn [] = Inr es"
    by (auto simp: select_unassigned_variable_def split: sum.splits)
  define vs where "vs = sort_key get_mrv es"
  have vs: "set vs = set es" by (simp add: vs_def)
  have "\<exists>e \<in> set es. var = get_var e"
  proof (cases "length vs = 1")
    case True
    with assms vn es show ?thesis
      using vs by (auto simp: select_unassigned_variable_def vs_def[symmetric] map_sum_def
          split: sum.splits dest!: list_get_in_set)
  next
    case False
    from assms vn es False obtain e0 e1 where
      e0: "list_get vs 0 = Inr e0" and e1: "list_get vs 1 = Inr e1" and
      r: "(if get_mrv e0 \<noteq> get_mrv e1 then Inr (get_var e0)
           else map_sum id get_var
                  (list_get (sort_key (\<lambda>e. - int (get_degree e))
                     (select_unassigned_variable_ties vs [e0])) 0)) = Inr var"
      by (auto simp: select_unassigned_variable_def vs_def[symmetric] split: sum.splits)
    have e0in: "e0 \<in> set es" using list_get_in_set[OF e0] vs by simp
    show ?thesis
    proof (cases "get_mrv e0 \<noteq> get_mrv e1")
      case True
      with r e0in show ?thesis by auto
    next
      case False
      with r obtain e where
        "list_get (sort_key (\<lambda>e. - int (get_degree e))
                     (select_unassigned_variable_ties vs [e0])) 0 = Inr e" "var = get_var e"
        by (auto simp: map_sum_def split: sum.splits)
      then have "e \<in> set (select_unassigned_variable_ties vs [e0])"
        by (auto dest!: list_get_in_set)
      with select_ties_set[of vs "[e0]"] e0in vs have "e \<in> set es" by auto
      with \<open>var = get_var e\<close> show ?thesis by auto
    qed
  qed
  then have "var \<in> set (map get_var es)" by auto
  with select_entries_map[OF es] have "var \<in> set vn" by simp
  with select_old_set[OF vn] show ?thesis by simp
qed

subsection \<open>Backtracking\<close>

text \<open>
  \<^verbatim>\<open>backtrack\<close> and its loop over the candidate words. The result of a call that
  returns is a triple: the value returned (\<^verbatim>\<open>None\<close> or the assignment), the domain
  store as the call leaves it, and the number of frames of \<^verbatim>\<open>backtrack\<close> on the
  deepest chain of nested calls the call opened, itself included. The last component is
  not a value of the program; it measures the recursion.

  The dictionary \<^verbatim>\<open>assignment\<close> is shared by all frames. A frame that returns
  \<^verbatim>\<open>None\<close> has deleted every key it inserted, so the loop continues with the
  dictionary it had, less the key \<^verbatim>\<open>var\<close>. The key that \<^verbatim>\<open>del\<close> removes is the
  key the iteration has just written, so \<^verbatim>\<open>del\<close> raises nothing.
\<close>

text \<open>The slots a partial assignment leaves open, and the two measures under which the
  recursion terminates: a frame of \<^verbatim>\<open>backtrack\<close> is above its loop, and an iteration
  of the loop is above the frame it opens and above the next iteration.\<close>

definition unassigned :: "crossword \<Rightarrow> assignment \<Rightarrow> variable set" where
  "unassigned cw a = set (variables cw) - set (map fst a)"

definition backtrack_open ::
  "crossword \<times> domains \<times> assignment + crossword \<times> domains \<times> assignment \<times> variable \<times> string list \<times> nat
     \<Rightarrow> nat" where
  "backtrack_open x =
     (case x of
        Inl (cw, d, a) \<Rightarrow> card (unassigned cw a)
      | Inr (cw, d, a, var, vals, deepest) \<Rightarrow> card (unassigned cw a - {var}))"

definition backtrack_left ::
  "crossword \<times> domains \<times> assignment + crossword \<times> domains \<times> assignment \<times> variable \<times> string list \<times> nat
     \<Rightarrow> nat" where
  "backtrack_left x =
     (case x of
        Inl (cw, d, a) \<Rightarrow> 0
      | Inr (cw, d, a, var, vals, deepest) \<Rightarrow> Suc (length vals))"

lemma unassigned_update: "unassigned cw (AList.update var val a) = unassigned cw a - {var}"
  using dom_update[of var val a] by (auto simp: unassigned_def)

lemma unassigned_delete: "unassigned cw (AList.delete var a) - {var} = unassigned cw a - {var}"
  by (auto simp: unassigned_def delete_keys)

lemma unassigned_delete_update:
  "unassigned cw (AList.delete var (AList.update var val a)) - {var} = unassigned cw a - {var}"
  by (simp add: delete_update_same unassigned_delete)

lemma finite_unassigned: "finite (unassigned cw a)"
  by (simp add: unassigned_def)

function backtrack ::
    "crossword \<Rightarrow> domains \<Rightarrow> assignment \<Rightarrow> error + assignment option \<times> domains \<times> nat"
  and backtrack_values ::
    "crossword \<Rightarrow> domains \<Rightarrow> assignment \<Rightarrow> variable \<Rightarrow> string list \<Rightarrow> nat
       \<Rightarrow> error + assignment option \<times> domains \<times> nat" where
  "backtrack cw d a =
     (if assignment_complete cw a then Inr (Some a, d, 1)
      else (case select_unassigned_variable cw d a of
              Inl e \<Rightarrow> Inl e
            | Inr var \<Rightarrow>
                (case order_domain_values cw d var a of
                   Inl e \<Rightarrow> Inl e
                 | Inr vals \<Rightarrow>
                     (case backtrack_values cw d a var vals 0 of
                        Inl e \<Rightarrow> Inl e
                      | Inr (result, d', deepest) \<Rightarrow> Inr (result, d', Suc deepest)))))"
| "backtrack_values cw d a var [] deepest = Inr (None, d, deepest)"
| "backtrack_values cw d a var (val # rest) deepest =
     (let a' = AList.update var val a
      in case consistent cw a' of
           Inl e \<Rightarrow> Inl e
         | Inr ok \<Rightarrow>
             if ok
             then (case backtrack cw d a' of
                     Inl e \<Rightarrow> Inl e
                   | Inr (result, d', depth) \<Rightarrow>
                       (case result of
                          Some solution \<Rightarrow> Inr (Some solution, d', max deepest depth)
                        | None \<Rightarrow>
                            backtrack_values cw d' (AList.delete var a') var rest
                              (max deepest depth)))
             else backtrack_values cw d (AList.delete var a') var rest deepest)"
  by pat_completeness auto
termination
proof (relation "measures [backtrack_open, backtrack_left]")
  show "wf (measures [backtrack_open, backtrack_left])" by simp
next
  fix cw :: crossword and d :: domains and a :: assignment and var vals
  assume "select_unassigned_variable cw d a = Inr var"
  then have "var \<in> unassigned cw a"
    using select_unassigned_variable_unassigned[of cw d a var] by (simp add: unassigned_def)
  then have "card (unassigned cw a - {var}) < card (unassigned cw a)"
    by (meson card_Diff1_less finite_unassigned)
  then show "(Inr (cw, d, a, var, vals, 0), Inl (cw, d, a))
               \<in> measures [backtrack_open, backtrack_left]"
    by (simp add: backtrack_open_def)
next
  fix cw :: crossword and d :: domains and a a' :: assignment and var val rest and deepest :: nat
  assume "a' = AList.update var val a"
  then show "(Inl (cw, d, a'), Inr (cw, d, a, var, val # rest, deepest))
               \<in> measures [backtrack_open, backtrack_left]"
    by (simp add: backtrack_open_def backtrack_left_def unassigned_update)
next
  fix cw :: crossword and d d' :: domains and a a' :: assignment and var val rest
    and deepest depth :: nat
  assume "a' = AList.update var val a"
  then show "(Inr (cw, d', AList.delete var a', var, rest, max deepest depth),
              Inr (cw, d, a, var, val # rest, deepest))
               \<in> measures [backtrack_open, backtrack_left]"
    by (simp add: backtrack_open_def backtrack_left_def unassigned_delete_update)
next
  fix cw :: crossword and d :: domains and a a' :: assignment and var val rest
    and deepest :: nat
  assume "a' = AList.update var val a"
  then show "(Inr (cw, d, AList.delete var a', var, rest, deepest),
              Inr (cw, d, a, var, val # rest, deepest))
               \<in> measures [backtrack_open, backtrack_left]"
    by (simp add: backtrack_open_def backtrack_left_def unassigned_delete_update)
qed

text \<open>The equation of \<^const>\<open>backtrack\<close> has a left-hand side that matches every
  call, so it is unfolded by hand.\<close>

declare backtrack.simps [simp del]

subsection \<open>The top level\<close>

text \<open>\<^verbatim>\<open>solve\<close> drops the value \<^verbatim>\<open>ac3\<close> returns and calls \<^verbatim>\<open>backtrack\<close> on
  the empty dictionary. Beside the value returned, the model keeps the depth of the
  search that produced it (see \<^const>\<open>backtrack\<close>); a depth of 0 would be a run that
  never entered \<^verbatim>\<open>backtrack\<close>.\<close>

definition solve :: "crossword \<Rightarrow> error + assignment option \<times> nat" where
  "solve cw =
     (case enforce_node_consistency cw (init_domains cw) of
        Inl e \<Rightarrow> Inl e
      | Inr d1 \<Rightarrow>
          (case ac3 cw None d1 of
             Inl e \<Rightarrow> Inl e
           | Inr (arcs_ok, d2) \<Rightarrow>
               (case backtrack cw d2 [] of
                  Inl e \<Rightarrow> Inl e
                | Inr (result, d3, depth) \<Rightarrow> Inr (result, depth))))"

section \<open>Predicates of the specification\<close>

text \<open>\<^verbatim>\<open>w[i] == v[j]\<close> with both indices in range, and a word of \<^verbatim>\<open>x\<close> that some
  word of \<^verbatim>\<open>y\<close> supports.\<close>

definition valid_index :: "string \<Rightarrow> int \<Rightarrow> bool" where
  "valid_index w k = (- int (length w) \<le> k \<and> k < int (length w))"

definition agree :: "string \<Rightarrow> int \<Rightarrow> string \<Rightarrow> int \<Rightarrow> bool" where
  "agree w i v j = (case py_index w i of Inl e \<Rightarrow> False | Inr c \<Rightarrow> py_index v j = Inr c)"

definition supported :: "int \<Rightarrow> int \<Rightarrow> string list \<Rightarrow> string \<Rightarrow> bool" where
  "supported i j ys w = (\<exists>v\<in>set ys. agree w i v j)"

text \<open>
  What the solver expects of the puzzle structure it is given: the slots are a set; a
  slot's neighbours are slots, the slot itself is not among them, and the relation is
  symmetric; two neighbours have an overlap, read from either side it is the same pair
  of offsets, swapped, and each offset is a position within its slot.
\<close>

definition wf_crossword :: "crossword \<Rightarrow> bool" where
  "wf_crossword cw =
     (distinct (variables cw) \<and>
      (\<forall>x\<in>set (variables cw). \<forall>y\<in>set (neighbors cw x).
         y \<in> set (variables cw) \<and> y \<noteq> x \<and> x \<in> set (neighbors cw y) \<and>
         (\<exists>i j. overlaps cw (x, y) = Some (i, j) \<and> overlaps cw (y, x) = Some (j, i) \<and>
                0 \<le> i \<and> i < var_length x \<and> 0 \<le> j \<and> j < var_length y)))"

text \<open>The arc from \<^verbatim>\<open>x\<close> to \<^verbatim>\<open>y\<close> is consistent in a store: every word of
  \<^verbatim>\<open>x\<close> has a word of \<^verbatim>\<open>y\<close> that agrees with it at the overlap.\<close>

definition arc_consistent :: "crossword \<Rightarrow> domains \<Rightarrow> variable \<Rightarrow> variable \<Rightarrow> bool" where
  "arc_consistent cw d x y =
     (\<forall>i j xs ys. overlaps cw (x, y) = Some (i, j) \<and> map_of d x = Some xs \<and> map_of d y = Some ys
        \<longrightarrow> (\<forall>w\<in>set xs. supported i j ys w))"

text \<open>An assignment the search may return as a solution: the words of two different
  slots differ, a word has the length of its slot, and the words of two assigned
  neighbours agree at their overlap.\<close>

definition valid_assignment :: "crossword \<Rightarrow> assignment \<Rightarrow> bool" where
  "valid_assignment cw a =
     ((\<forall>x y w w'. map_of a x = Some w \<and> map_of a y = Some w' \<and> x \<noteq> y \<longrightarrow> w \<noteq> w') \<and>
      (\<forall>x w. map_of a x = Some w \<longrightarrow> int (length w) = var_length x) \<and>
      (\<forall>x y w w'. map_of a x = Some w \<and> y \<in> set (neighbors cw x) \<and> map_of a y = Some w'
         \<longrightarrow> (\<exists>i j. overlaps cw (x, y) = Some (i, j) \<and> agree w i w' j)))"

text \<open>The conditions under which the search raises nothing: every slot has its entry in
  the store and the words of the entry have the slot's length (the state after node
  consistency), and the dictionary assigns slots only, each a word of its length.\<close>

definition node_consistent :: "crossword \<Rightarrow> domains \<Rightarrow> bool" where
  "node_consistent cw d =
     (\<forall>v\<in>set (variables cw). \<exists>ws. map_of d v = Some ws \<and>
        (\<forall>w\<in>set ws. int (length w) = var_length v))"

definition partial_assignment :: "crossword \<Rightarrow> assignment \<Rightarrow> bool" where
  "partial_assignment cw a =
     (distinct (map fst a) \<and> set (map fst a) \<subseteq> set (variables cw) \<and>
      (\<forall>p\<in>set a. int (length (snd p)) = var_length (fst p)))"

text \<open>Consistency enforcement only removes words: every entry of the store stays, with
  a subset of its words.\<close>

definition shrinks :: "domains \<Rightarrow> domains \<Rightarrow> bool" where
  "shrinks d d' =
     (\<forall>v ws. map_of d v = Some ws \<longrightarrow> (\<exists>ws'. map_of d' v = Some ws' \<and> set ws' \<subseteq> set ws))"

text \<open>The keys of a dictionary the search builds are distinct slots, and a word it
  assigns to a slot beyond those it was given is a word of the slot's entry in the store.\<close>

definition keys_ok :: "crossword \<Rightarrow> assignment \<Rightarrow> bool" where
  "keys_ok cw a = (distinct (map fst a) \<and> set (map fst a) \<subseteq> set (variables cw))"

definition drawn_from :: "domains \<Rightarrow> assignment \<Rightarrow> assignment \<Rightarrow> bool" where
  "drawn_from d a s =
     (\<forall>v w. map_of s v = Some w \<longrightarrow>
        map_of a v = Some w \<or> (\<exists>ws. map_of d v = Some ws \<and> w \<in> set ws))"

section \<open>Example puzzles\<close>

text \<open>Two crossing slots of three cells: the second cell of the across slot is the first
  cell of the down slot.\<close>

definition slot_x :: variable where
  "slot_x = \<lparr>var_i = 0, var_j = 0, direction = ACROSS, var_length = 3\<rparr>"

definition slot_y :: variable where
  "slot_y = \<lparr>var_i = 0, var_j = 1, direction = DOWN, var_length = 3\<rparr>"

definition cross_puzzle :: "string list \<Rightarrow> crossword" where
  "cross_puzzle ws =
     \<lparr>variables = [slot_x, slot_y],
      words = ws,
      overlaps = (\<lambda>(a, b). if a = slot_x \<and> b = slot_y then Some (1, 0)
                            else if a = slot_y \<and> b = slot_x then Some (0, 1)
                            else None),
      neighbors = (\<lambda>v. if v = slot_x then [slot_y] else if v = slot_y then [slot_x] else [])\<rparr>"

text \<open>A second puzzle: two slots that cross in their first cell, and two slots that
  cross nothing.\<close>

definition slot_a :: variable where
  "slot_a = \<lparr>var_i = 3, var_j = 0, direction = ACROSS, var_length = 3\<rparr>"

definition slot_b :: variable where
  "slot_b = \<lparr>var_i = 5, var_j = 0, direction = ACROSS, var_length = 4\<rparr>"

definition slot_c :: variable where
  "slot_c = \<lparr>var_i = 0, var_j = 0, direction = ACROSS, var_length = 2\<rparr>"

definition slot_d :: variable where
  "slot_d = \<lparr>var_i = 0, var_j = 0, direction = DOWN, var_length = 2\<rparr>"

definition four_puzzle :: crossword where
  "four_puzzle =
     \<lparr>variables = [slot_a, slot_b, slot_c, slot_d],
      words = [''CAT'', ''FISH'', ''BC'', ''BD''],
      overlaps = (\<lambda>(x, y). if x = slot_c \<and> y = slot_d then Some (0, 0)
                            else if x = slot_d \<and> y = slot_c then Some (0, 0)
                            else None),
      neighbors = (\<lambda>v. if v = slot_c then [slot_d] else if v = slot_d then [slot_c] else [])\<rparr>"

lemma slot_x_neq_y [simp]: "slot_x \<noteq> slot_y" "slot_y \<noteq> slot_x"
  by (simp_all add: slot_x_def slot_y_def)

lemma slot_lengths [simp]: "var_length slot_x = 3" "var_length slot_y = 3"
  by (simp_all add: slot_x_def slot_y_def)

lemma four_slots_distinct [simp]:
  "slot_a \<noteq> slot_b" "slot_a \<noteq> slot_c" "slot_a \<noteq> slot_d"
  "slot_b \<noteq> slot_a" "slot_b \<noteq> slot_c" "slot_b \<noteq> slot_d"
  "slot_c \<noteq> slot_a" "slot_c \<noteq> slot_b" "slot_c \<noteq> slot_d"
  "slot_d \<noteq> slot_a" "slot_d \<noteq> slot_b" "slot_d \<noteq> slot_c"
  by (simp_all add: slot_a_def slot_b_def slot_c_def slot_d_def)

lemma four_slots_lengths [simp]:
  "var_length slot_a = 3" "var_length slot_b = 4" "var_length slot_c = 2" "var_length slot_d = 2"
  by (simp_all add: slot_a_def slot_b_def slot_c_def slot_d_def)

section \<open>Node consistency\<close>

lemma enforce_node_consistency_words_filter:
  "\<forall>w\<in>set kept. int (length w) = var_length var \<Longrightarrow>
     enforce_node_consistency_words var ws (kept @ ws)
       = Inr (kept @ filter (\<lambda>w. int (length w) = var_length var) ws)"
proof (induction ws arbitrary: kept)
  case Nil
  then show ?case by simp
next
  case (Cons w ws)
  show ?case
  proof (cases "int (length w) = var_length var")
    case True
    with Cons.prems have "\<forall>x\<in>set (kept @ [w]). int (length x) = var_length var" by simp
    from Cons.IH[OF this] True show ?thesis by simp
  next
    case False
    with Cons.prems have "w \<notin> set kept" by auto
    then have "remove1 w (kept @ w # ws) = kept @ ws" by (simp add: remove1_append)
    with False Cons.IH[OF Cons.prems] show ?thesis by (simp add: set_remove_def)
  qed
qed

lemma enforce_node_consistency_vars_result:
  "set vs \<subseteq> fst ` set d \<Longrightarrow>
     \<exists>d'. enforce_node_consistency_vars vs d = Inr d' \<and>
          (\<forall>v. map_of d' v =
                 (if v \<in> set vs
                  then map_option (filter (\<lambda>w. int (length w) = var_length v)) (map_of d v)
                  else map_of d v))"
proof (induction vs arbitrary: d)
  case Nil
  then show ?case by simp
next
  case (Cons var vs)
  from Cons.prems obtain ws where ws: "map_of d var = Some ws"
    by (metis list.set_intros(1) subsetD weak_map_of_SomeI map_of_eq_None_iff not_Some_eq)
  define d1 where "d1 = AList.update var (filter (\<lambda>w. int (length w) = var_length var) ws) d"
  have step: "enforce_node_consistency_words var ws ws
                = Inr (filter (\<lambda>w. int (length w) = var_length var) ws)"
    using enforce_node_consistency_words_filter[of "[]" var ws] by simp
  have "set vs \<subseteq> fst ` set d1"
    using Cons.prems by (auto simp: d1_def dom_update)
  from Cons.IH[OF this] obtain d' where
    run: "enforce_node_consistency_vars vs d1 = Inr d'" and
    d': "\<And>v. map_of d' v =
                 (if v \<in> set vs
                  then map_option (filter (\<lambda>w. int (length w) = var_length v)) (map_of d1 v)
                  else map_of d1 v)"
    by blast
  have "enforce_node_consistency_vars (var # vs) d = Inr d'"
    using ws step run by (simp add: dict_get_def d1_def)
  moreover have "map_of d' v =
                 (if v \<in> set (var # vs)
                  then map_option (filter (\<lambda>w. int (length w) = var_length v)) (map_of d v)
                  else map_of d v)" for v
    using d'[of v] ws by (auto simp: d1_def update_conv')
  ultimately show ?case by blast
qed

lemma map_of_fold_update:
  "map_of (fold (\<lambda>var d. AList.update var W d) vs d0) v
     = (if v \<in> set vs then Some W else map_of d0 v)"
  by (induction vs arbitrary: d0) (auto simp: update_conv')

lemma map_of_init_domains:
  "map_of (init_domains cw) v = (if v \<in> set (variables cw) then Some (words cw) else None)"
  by (simp add: init_domains_def map_of_fold_update)

lemma keys_init_domains: "fst ` set (init_domains cw) = set (variables cw)"
proof -
  have "dom (map_of (init_domains cw)) = set (variables cw)"
    by (auto simp: map_of_init_domains dom_def)
  then show ?thesis by (simp add: dom_map_of_conv_image_fst)
qed

lemma enforce_node_consistency_init:
  "\<exists>d. enforce_node_consistency cw (init_domains cw) = Inr d \<and>
       (\<forall>v. map_of d v =
              (if v \<in> set (variables cw)
               then Some (filter (\<lambda>w. int (length w) = var_length v) (words cw))
               else None))"
proof -
  have "set (variables cw) \<subseteq> fst ` set (init_domains cw)"
    by (simp add: keys_init_domains)
  from enforce_node_consistency_vars_result[OF this] show ?thesis
    by (auto simp: enforce_node_consistency_def map_of_init_domains)
qed

text \<open>
  Claim C9. \<^verbatim>\<open>enforce_node_consistency\<close> on the store that \<^verbatim>\<open>__init__\<close> seeds
  returns, and leaves every slot with exactly the words of the word list whose length is
  the slot's: every word that remains has the slot's length, and no word of that length
  was removed.
\<close>

theorem enforce_node_consistency_lengths:
  "\<exists>d. enforce_node_consistency cw (init_domains cw) = Inr d \<and>
       (\<forall>v\<in>set (variables cw). \<exists>ws. map_of d v = Some ws \<and>
           set ws = {w \<in> set (words cw). int (length w) = var_length v})"
proof -
  from enforce_node_consistency_init[of cw] obtain d where
    run: "enforce_node_consistency cw (init_domains cw) = Inr d" and
    d: "\<And>v. map_of d v =
              (if v \<in> set (variables cw)
               then Some (filter (\<lambda>w. int (length w) = var_length v) (words cw))
               else None)"
    by blast
  have "\<exists>ws. map_of d v = Some ws \<and>
           set ws = {w \<in> set (words cw). int (length w) = var_length v}"
    if "v \<in> set (variables cw)" for v
    using d[of v] that by simp
  with run show ?thesis by blast
qed

theorem enforce_node_consistency_lengths_witness:
  "\<exists>d. enforce_node_consistency (cross_puzzle [''CAT'', ''A'', ''OWL'', ''BB''])
          (init_domains (cross_puzzle [''CAT'', ''A'', ''OWL'', ''BB''])) = Inr d \<and>
       (\<exists>ws. map_of d slot_x = Some ws \<and> set ws = {''CAT'', ''OWL''})"
proof -
  let ?cw = "cross_puzzle [''CAT'', ''A'', ''OWL'', ''BB'']"
  from enforce_node_consistency_lengths[of ?cw] obtain d where
    run: "enforce_node_consistency ?cw (init_domains ?cw) = Inr d" and
    d: "\<forall>v\<in>set (variables ?cw). \<exists>ws. map_of d v = Some ws \<and>
           set ws = {w \<in> set (words ?cw). int (length w) = var_length v}"
    by blast
  have "slot_x \<in> set (variables ?cw)" by (simp add: cross_puzzle_def)
  with d obtain ws where ws: "map_of d slot_x = Some ws"
    "set ws = {w \<in> set (words ?cw). int (length w) = var_length slot_x}" by blast
  have "{w \<in> set (words ?cw). int (length w) = var_length slot_x} = {''CAT'', ''OWL''}"
    by (auto simp: cross_puzzle_def slot_x_def)
  with run ws show ?thesis by auto
qed

section \<open>Revising one arc\<close>

lemma py_index_valid: "(\<exists>c. py_index w k = Inr c) = valid_index w k"
  by (auto simp: py_index_def valid_index_def Let_def)

lemma py_index_invalid: "\<not> valid_index w k \<Longrightarrow> py_index w k = Inl IndexError"
  by (auto simp: py_index_def valid_index_def Let_def)

lemma revise_ywords_result:
  "revise_ywords xc j ys r0 = Inr r \<Longrightarrow>
     (\<forall>v\<in>set ys. valid_index v j) \<and> r = (r0 \<and> \<not> (\<exists>v\<in>set ys. py_index v j = Inr xc))"
proof (induction ys arbitrary: r0)
  case Nil
  then show ?case by simp
next
  case (Cons y ys)
  from Cons.prems obtain yc where
    yc: "py_index y j = Inr yc" and
    rest: "revise_ywords xc j ys (if xc = yc then False else r0) = Inr r"
    by (auto split: sum.splits)
  from yc have "valid_index y j" using py_index_valid by blast
  with Cons.IH[OF rest] yc show ?case by auto
qed

lemma revise_ywords_total:
  "\<forall>v\<in>set ys. valid_index v j \<Longrightarrow> \<exists>r. revise_ywords xc j ys r0 = Inr r"
proof (induction ys arbitrary: r0)
  case Nil
  then show ?case by simp
next
  case (Cons y ys)
  then obtain yc where "py_index y j = Inr yc" using py_index_valid[of y j] by auto
  with Cons show ?case by simp
qed

lemma revise_ywords_supported:
  assumes "py_index w i = Inr xc" and "revise_ywords xc j ys True = Inr r"
  shows "r = (\<not> supported i j ys w)"
  using revise_ywords_result[OF assms(2)] assms(1) by (simp add: supported_def agree_def)

lemma revise_xwords_result:
  "revise_xwords i j ys ws (kept @ ws, b0) = Inr (cur, b) \<Longrightarrow>
   \<forall>w\<in>set kept. supported i j ys w \<Longrightarrow>
     cur = kept @ filter (supported i j ys) ws \<and>
     b = (b0 \<or> (\<exists>w\<in>set ws. \<not> supported i j ys w)) \<and>
     (\<forall>w\<in>set ws. valid_index w i) \<and> (ws \<noteq> [] \<longrightarrow> (\<forall>v\<in>set ys. valid_index v j))"
proof (induction ws arbitrary: kept b0)
  case Nil
  then show ?case by simp
next
  case (Cons w ws)
  from Cons.prems(1) obtain xc r where
    xc: "py_index w i = Inr xc" and r: "revise_ywords xc j ys True = Inr r"
    by (auto split: sum.splits)
  have vw: "valid_index w i" using xc py_index_valid by blast
  have vy: "\<forall>v\<in>set ys. valid_index v j" using revise_ywords_result[OF r] by simp
  have rs: "r = (\<not> supported i j ys w)" by (rule revise_ywords_supported[OF xc r])
  show ?case
  proof (cases r)
    case True
    with rs Cons.prems(2) have "w \<notin> set kept" by auto
    then have rm: "set_remove w (kept @ w # ws) = Inr (kept @ ws)"
      by (simp add: set_remove_def remove1_append)
    from Cons.prems(1) xc r True rm
    have "revise_xwords i j ys ws (kept @ ws, True) = Inr (cur, b)" by simp
    from Cons.IH[OF this Cons.prems(2)] rs True vw vy show ?thesis by auto
  next
    case False
    with Cons.prems(1) xc r
    have "revise_xwords i j ys ws ((kept @ [w]) @ ws, b0) = Inr (cur, b)" by simp
    moreover from False rs Cons.prems(2)
    have "\<forall>u\<in>set (kept @ [w]). supported i j ys u" by simp
    ultimately show ?thesis using Cons.IH[of "kept @ [w]" b0] rs False vw vy by auto
  qed
qed

lemma revise_xwords_value:
  "\<forall>w\<in>set ws. valid_index w i \<Longrightarrow> \<forall>v\<in>set ys. valid_index v j \<Longrightarrow>
   \<forall>w\<in>set kept. supported i j ys w \<Longrightarrow>
     revise_xwords i j ys ws (kept @ ws, b0)
       = Inr (kept @ filter (supported i j ys) ws, b0 \<or> (\<exists>w\<in>set ws. \<not> supported i j ys w))"
proof (induction ws arbitrary: kept b0)
  case Nil
  then show ?case by simp
next
  case (Cons w ws)
  from Cons.prems(1) obtain xc where xc: "py_index w i = Inr xc"
    using py_index_valid[of w i] by auto
  from revise_ywords_total[OF Cons.prems(2)] obtain r where
    r: "revise_ywords xc j ys True = Inr r" by blast
  have rs: "r = (\<not> supported i j ys w)" by (rule revise_ywords_supported[OF xc r])
  from Cons.prems(1) have vws: "\<forall>w\<in>set ws. valid_index w i" by simp
  show ?case
  proof (cases r)
    case True
    with rs Cons.prems(3) have "w \<notin> set kept" by auto
    then have rm: "set_remove w (kept @ w # ws) = Inr (kept @ ws)"
      by (simp add: set_remove_def remove1_append)
    from Cons.IH[OF vws Cons.prems(2) Cons.prems(3), of True] xc r True rm rs
    show ?thesis by simp
  next
    case False
    with rs Cons.prems(3) have "\<forall>u\<in>set (kept @ [w]). supported i j ys u" by simp
    from Cons.IH[OF vws Cons.prems(2) this, of b0] xc r False rs
    show ?thesis by simp
  qed
qed

lemma revise_no_overlap: "overlaps cw (x, y) = None \<Longrightarrow> revise cw d x y = Inr (False, d)"
  by (simp add: revise_def)

lemma revise_result:
  assumes "revise cw d x y = Inr (b, d')" and "overlaps cw (x, y) = Some (i, j)"
  shows "\<exists>xs ys. map_of d x = Some xs \<and> map_of d y = Some ys \<and>
           d' = AList.update x (filter (supported i j ys) xs) d \<and>
           b = (\<exists>w\<in>set xs. \<not> supported i j ys w) \<and>
           (\<forall>w\<in>set xs. valid_index w i) \<and> (xs \<noteq> [] \<longrightarrow> (\<forall>v\<in>set ys. valid_index v j))"
proof -
  from assms obtain xs ys cur where
    x: "map_of d x = Some xs" and y: "map_of d y = Some ys" and
    r: "revise_xwords i j ys xs (xs, False) = Inr (cur, b)" and
    d': "d' = AList.update x cur d"
    by (auto simp: revise_def dict_get_def split: option.splits sum.splits)
  from revise_xwords_result[of i j ys xs "[]" False cur b] r
  have "cur = filter (supported i j ys) xs" "b = (\<exists>w\<in>set xs. \<not> supported i j ys w)"
    "\<forall>w\<in>set xs. valid_index w i" "xs \<noteq> [] \<longrightarrow> (\<forall>v\<in>set ys. valid_index v j)"
    by simp_all
  with x y d' show ?thesis by blast
qed

lemma revise_value:
  assumes "overlaps cw (x, y) = Some (i, j)" and "map_of d x = Some xs" and "map_of d y = Some ys"
    and "\<forall>w\<in>set xs. valid_index w i" and "\<forall>v\<in>set ys. valid_index v j"
  shows "revise cw d x y = Inr (\<exists>w\<in>set xs. \<not> supported i j ys w,
                                AList.update x (filter (supported i j ys) xs) d)"
  using assms revise_xwords_value[of xs i ys j "[]" False]
  by (simp add: revise_def dict_get_def)

text \<open>
  Claim C7. Without an overlap \<^verbatim>\<open>revise(x, y)\<close> returns \<^verbatim>\<open>False\<close> and the store is
  as it was. With the overlap \<^verbatim>\<open>(i, j)\<close>, on domains whose words can be read at these
  offsets, it returns; the domain of \<^verbatim>\<open>x\<close> is then the words it had that some word of the
  domain of \<^verbatim>\<open>y\<close> supports, in their order, every other slot has the domain it had (so
  has \<^verbatim>\<open>y\<close>, a slot other than \<^verbatim>\<open>x\<close>), and the value returned says whether a word was
  removed.
\<close>

theorem revise_removes_unsupported:
  "(overlaps cw (x, y) = None \<longrightarrow> revise cw d x y = Inr (False, d)) \<and>
   (\<forall>i j xs ys.
      overlaps cw (x, y) = Some (i, j) \<and> map_of d x = Some xs \<and> map_of d y = Some ys \<and>
      (\<forall>w\<in>set xs. valid_index w i) \<and> (\<forall>v\<in>set ys. valid_index v j) \<longrightarrow>
      (\<exists>d'. revise cw d x y = Inr (\<exists>w\<in>set xs. \<not> supported i j ys w, d') \<and>
            map_of d' x = Some (filter (supported i j ys) xs) \<and>
            (\<forall>z. z \<noteq> x \<longrightarrow> map_of d' z = map_of d z)))"
proof (intro conjI allI impI)
  assume "overlaps cw (x, y) = None"
  then show "revise cw d x y = Inr (False, d)" by (rule revise_no_overlap)
next
  fix i j xs ys
  assume h: "overlaps cw (x, y) = Some (i, j) \<and> map_of d x = Some xs \<and> map_of d y = Some ys \<and>
      (\<forall>w\<in>set xs. valid_index w i) \<and> (\<forall>v\<in>set ys. valid_index v j)"
  let ?d' = "AList.update x (filter (supported i j ys) xs) d"
  from h have "revise cw d x y = Inr (\<exists>w\<in>set xs. \<not> supported i j ys w, ?d')"
    by (simp add: revise_value)
  moreover have "map_of ?d' x = Some (filter (supported i j ys) xs)"
    by (simp add: update_conv')
  moreover have "\<forall>z. z \<noteq> x \<longrightarrow> map_of ?d' z = map_of d z"
    by (simp add: update_conv')
  ultimately show "\<exists>d'. revise cw d x y = Inr (\<exists>w\<in>set xs. \<not> supported i j ys w, d') \<and>
            map_of d' x = Some (filter (supported i j ys) xs) \<and>
            (\<forall>z. z \<noteq> x \<longrightarrow> map_of d' z = map_of d z)"
    by blast
qed

theorem revise_removes_unsupported_witness:
  "revise (cross_puzzle [''CAT'', ''DOG'', ''ANT'', ''OWL''])
     [(slot_x, [''CAT'', ''DOG'', ''ANT'', ''OWL'']), (slot_y, [''CAT'', ''DOG'', ''ANT'', ''OWL''])]
     slot_x slot_x
   = Inr (False,
       [(slot_x, [''CAT'', ''DOG'', ''ANT'', ''OWL'']), (slot_y, [''CAT'', ''DOG'', ''ANT'', ''OWL''])]) \<and>
   (\<exists>d'. revise (cross_puzzle [''CAT'', ''DOG'', ''ANT'', ''OWL''])
            [(slot_x, [''CAT'', ''DOG'', ''ANT'', ''OWL'']), (slot_y, [''CAT'', ''DOG'', ''ANT'', ''OWL''])]
            slot_x slot_y = Inr (True, d') \<and>
         map_of d' slot_x = Some [''CAT'', ''DOG''] \<and>
         map_of d' slot_y = Some [''CAT'', ''DOG'', ''ANT'', ''OWL''])"
proof -
  let ?ws = "[''CAT'', ''DOG'', ''ANT'', ''OWL'']"
  let ?cw = "cross_puzzle ?ws"
  let ?d = "[(slot_x, ?ws), (slot_y, ?ws)]"
  have none: "overlaps ?cw (slot_x, slot_x) = None" by (simp add: cross_puzzle_def)
  have pre: "overlaps ?cw (slot_x, slot_y) = Some (1, 0) \<and> map_of ?d slot_x = Some ?ws \<and>
      map_of ?d slot_y = Some ?ws \<and>
      (\<forall>w\<in>set ?ws. valid_index w 1) \<and> (\<forall>v\<in>set ?ws. valid_index v 0)"
    by (simp add: cross_puzzle_def valid_index_def)
  have sup: "filter (supported 1 0 ?ws) ?ws = [''CAT'', ''DOG'']"
    by (simp add: supported_def agree_def py_index_def)
  have ex: "(\<exists>w\<in>set ?ws. \<not> supported 1 0 ?ws w) = True"
    by (simp add: supported_def agree_def py_index_def)
  from revise_removes_unsupported[of ?cw slot_x slot_x ?d] none
  have first: "revise ?cw ?d slot_x slot_x = Inr (False, ?d)" by blast
  from revise_removes_unsupported[of ?cw slot_x slot_y ?d] pre
  obtain d' where
    "revise ?cw ?d slot_x slot_y = Inr (\<exists>w\<in>set ?ws. \<not> supported 1 0 ?ws w, d')"
    "map_of d' slot_x = Some (filter (supported 1 0 ?ws) ?ws)"
    "\<forall>z. z \<noteq> slot_x \<longrightarrow> map_of d' z = map_of ?d z"
    by blast
  with sup ex have "revise ?cw ?d slot_x slot_y = Inr (True, d') \<and>
         map_of d' slot_x = Some [''CAT'', ''DOG''] \<and>
         map_of d' slot_y = Some ?ws"
    by simp
  with first show ?thesis by blast
qed

section \<open>Arc consistency of the whole puzzle\<close>

lemma agree_sym: "agree w i v j = agree v j w i"
  by (auto simp: agree_def split: sum.splits)

lemma wf_crossword_neighbor:
  assumes "wf_crossword cw" and "x \<in> set (variables cw)" and "y \<in> set (neighbors cw x)"
  shows "y \<in> set (variables cw)" and "y \<noteq> x" and "x \<in> set (neighbors cw y)"
    and "\<exists>i j. overlaps cw (x, y) = Some (i, j) \<and> overlaps cw (y, x) = Some (j, i) \<and>
                0 \<le> i \<and> i < var_length x \<and> 0 \<le> j \<and> j < var_length y"
  using assms unfolding wf_crossword_def by blast+

lemma revise_unrevised:
  assumes "revise cw d x y = Inr (False, d')"
  shows "d' = d"
proof (cases "overlaps cw (x, y)")
  case None
  with assms show ?thesis by (simp add: revise_def)
next
  case (Some ov)
  obtain i j where "ov = (i, j)" by (cases ov)
  with Some have ov: "overlaps cw (x, y) = Some (i, j)" by simp
  from revise_result[OF assms ov] obtain xs ys where
    x: "map_of d x = Some xs" and
    d': "d' = AList.update x (filter (supported i j ys) xs) d" and
    b: "\<not> (\<exists>w\<in>set xs. \<not> supported i j ys w)"
    by blast
  from b have "filter (supported i j ys) xs = xs" by (simp add: filter_id_conv)
  with d' x show ?thesis by (simp add: update_triv)
qed

lemma revise_keeps_invariant:
  assumes wf: "wf_crossword cw"
    and rev: "revise cw d X Y = Inr (b, d1)"
    and inv: "\<forall>x\<in>set (variables cw). \<forall>y\<in>set (neighbors cw x).
                (x, y) \<in> set ((X, Y) # queue) \<or> arc_consistent cw d x y"
    and x: "x \<in> set (variables cw)" and y: "y \<in> set (neighbors cw x)"
  shows "(x, y) \<in> set (if b then queue @ map (\<lambda>Z. (Z, X)) (filter (\<lambda>Z. Z \<noteq> Y) (neighbors cw X))
                       else queue)
         \<or> arc_consistent cw d1 x y"
proof (cases "overlaps cw (X, Y)")
  case None
  with rev have "d1 = d" "\<not> b" by (simp_all add: revise_def)
  moreover from None have "arc_consistent cw d X Y" by (simp add: arc_consistent_def)
  ultimately show ?thesis using inv x y by auto
next
  case (Some ov)
  obtain i j where "ov = (i, j)" by (cases ov)
  with Some have ov: "overlaps cw (X, Y) = Some (i, j)" by simp
  from revise_result[OF rev ov] obtain xs ys where
    dX: "map_of d X = Some xs" and dY: "map_of d Y = Some ys" and
    d1: "d1 = AList.update X (filter (supported i j ys) xs) d" and
    b: "b = (\<exists>w\<in>set xs. \<not> supported i j ys w)"
    by blast
  let ?xs' = "filter (supported i j ys) xs"
  have m1: "map_of d1 = (map_of d)(X \<mapsto> ?xs')" by (simp add: d1 update_conv')
  from wf_crossword_neighbor[OF wf x y] have xy: "y \<noteq> x" and yx: "x \<in> set (neighbors cw y)"
    by simp_all
  consider (arc) "(x, y) = (X, Y)" | (queued) "(x, y) \<in> set queue"
    | (held) "(x, y) \<noteq> (X, Y)" "arc_consistent cw d x y"
    using inv x y by auto
  then show ?thesis
  proof cases
    case arc
    with xy have "X \<noteq> Y" by auto
    with m1 dY have "map_of d1 X = Some ?xs'" "map_of d1 Y = Some ys" by simp_all
    with ov arc show ?thesis by (simp add: arc_consistent_def)
  next
    case queued
    then show ?thesis by simp
  next
    case held
    show ?thesis
    proof (cases b)
      case False
      with rev have "d1 = d" using revise_unrevised[of cw d X Y d1] by simp
      with held show ?thesis by simp
    next
      case True
      show ?thesis
      proof (cases "y = X")
        case False
        have "arc_consistent cw d1 x y"
          unfolding arc_consistent_def
        proof (intro allI impI ballI)
          fix a c ws vs w
          assume h: "overlaps cw (x, y) = Some (a, c) \<and> map_of d1 x = Some ws \<and>
                      map_of d1 y = Some vs"
            and w: "w \<in> set ws"
          from h False m1 have vs: "map_of d y = Some vs" by simp
          from h m1 w obtain ws0 where "map_of d x = Some ws0" "w \<in> set ws0"
            using dX by (cases "x = X") auto
          with held(2) h vs show "supported a c vs w"
            by (auto simp: arc_consistent_def)
        qed
        then show ?thesis by simp
      next
        case yX: True
        show ?thesis
        proof (cases "x = Y")
          case False
          with yx yX True show ?thesis by simp
        next
          case xY: True
          from xy yX xY have neq: "Y \<noteq> X" by simp
          from wf_crossword_neighbor(4)[OF wf x y] yX xY ov
          have ovYX: "overlaps cw (Y, X) = Some (j, i)" by auto
          from m1 neq dY have mY: "map_of d1 Y = Some ys" by simp
          from m1 have mX: "map_of d1 X = Some ?xs'" by simp
          have "\<forall>v\<in>set ys. supported j i ?xs' v"
          proof
            fix v assume v: "v \<in> set ys"
            from held(2) yX xY ovYX dX dY v have "supported j i xs v"
              by (auto simp: arc_consistent_def)
            then obtain w where w: "w \<in> set xs" "agree v j w i"
              by (auto simp: supported_def)
            then have "agree w i v j" using agree_sym by blast
            with v have "supported i j ys w" by (auto simp: supported_def)
            with w show "supported j i ?xs' v" by (auto simp: supported_def)
          qed
          with ovYX mY mX yX xY have "arc_consistent cw d1 x y"
            by (simp add: arc_consistent_def)
          then show ?thesis by simp
        qed
      qed
    qed
  qed
qed

lemma ac3_loop_arc_consistent:
  "ac3_loop cw queue d = Inr (True, d') \<Longrightarrow> wf_crossword cw \<Longrightarrow>
   \<forall>x\<in>set (variables cw). \<forall>y\<in>set (neighbors cw x).
      (x, y) \<in> set queue \<or> arc_consistent cw d x y \<Longrightarrow>
   \<forall>x\<in>set (variables cw). \<forall>y\<in>set (neighbors cw x). arc_consistent cw d' x y"
proof (induction cw queue d rule: ac3_loop.induct)
  case (1 cw d)
  then show ?case by simp
next
  case (2 cw X Y queue d)
  from "2.prems"(1) obtain b d1 where rev: "revise cw d X Y = Inr (b, d1)"
    by (auto split: sum.splits)
  let ?q = "if b then queue @ map (\<lambda>Z. (Z, X)) (filter (\<lambda>Z. Z \<noteq> Y) (neighbors cw X))
            else queue"
  have inv: "\<forall>x\<in>set (variables cw). \<forall>y\<in>set (neighbors cw x).
               (x, y) \<in> set ?q \<or> arc_consistent cw d1 x y"
    using revise_keeps_invariant[OF "2.prems"(2) rev "2.prems"(3)] by blast
  show ?case
  proof (cases b)
    case True
    with "2.prems"(1) rev obtain cur where
      cur: "dict_get d1 X = Inr cur" "length cur \<noteq> 0" and
      run: "ac3_loop cw (queue @ map (\<lambda>Z. (Z, X)) (filter (\<lambda>Z. Z \<noteq> Y) (neighbors cw X))) d1
              = Inr (True, d')"
      by (auto split: sum.splits if_splits)
    from inv True have "\<forall>x\<in>set (variables cw). \<forall>y\<in>set (neighbors cw x).
        (x, y) \<in> set (queue @ map (\<lambda>Z. (Z, X)) (filter (\<lambda>Z. Z \<noteq> Y) (neighbors cw X)))
        \<or> arc_consistent cw d1 x y"
      by simp
    from "2.IH"(1)[OF rev refl _ cur(1) _ run "2.prems"(2) this] True cur(2)
    show ?thesis by simp
  next
    case False
    with "2.prems"(1) rev have run: "ac3_loop cw queue d1 = Inr (True, d')" by simp
    from inv False have "\<forall>x\<in>set (variables cw). \<forall>y\<in>set (neighbors cw x).
        (x, y) \<in> set queue \<or> arc_consistent cw d1 x y"
      by simp
    from "2.IH"(2)[OF rev refl _ run "2.prems"(2) this] False
    show ?thesis by simp
  qed
qed

text \<open>
  Claim C6. When \<^verbatim>\<open>ac3()\<close>, called without an arc list on a well-formed puzzle,
  returns \<^verbatim>\<open>True\<close>, every arc from a slot to one of its neighbours is consistent in the
  store it leaves: with \<^verbatim>\<open>(i, j)\<close> the overlap of \<^verbatim>\<open>x\<close> and \<^verbatim>\<open>y\<close>, every word
  \<^verbatim>\<open>w\<close> of \<^verbatim>\<open>x\<close> has a word \<^verbatim>\<open>v\<close> of \<^verbatim>\<open>y\<close> with \<^verbatim>\<open>w[i] == v[j]\<close>.
\<close>

theorem ac3_arc_consistent:
  assumes "wf_crossword cw" and "ac3 cw None d = Inr (True, d')"
  shows "\<forall>x\<in>set (variables cw). \<forall>y\<in>set (neighbors cw x). \<forall>i j xs ys.
           overlaps cw (x, y) = Some (i, j) \<and> map_of d' x = Some xs \<and> map_of d' y = Some ys
             \<longrightarrow> (\<forall>w\<in>set xs. \<exists>v\<in>set ys. agree w i v j)"
proof -
  let ?queue = "concat (map (\<lambda>var. map (\<lambda>neighbor. (var, neighbor)) (neighbors cw var))
                          (variables cw))"
  from assms(2) have run: "ac3_loop cw ?queue d = Inr (True, d')"
    by (simp add: ac3_def)
  have "\<forall>x\<in>set (variables cw). \<forall>y\<in>set (neighbors cw x).
          (x, y) \<in> set ?queue \<or> arc_consistent cw d x y"
    by auto
  from ac3_loop_arc_consistent[OF run assms(1) this]
  show ?thesis by (simp add: arc_consistent_def supported_def)
qed

lemma wf_cross_puzzle: "wf_crossword (cross_puzzle ws)"
  by (simp add: wf_crossword_def cross_puzzle_def)

lemma cross_puzzle_ac3:
  "ac3 (cross_puzzle [''CAT'', ''DOG'', ''ANT'', ''OWL'']) None
     [(slot_x, [''CAT'', ''DOG'', ''ANT'', ''OWL'']), (slot_y, [''CAT'', ''DOG'', ''ANT'', ''OWL''])]
   = Inr (True, [(slot_x, [''CAT'', ''DOG'']), (slot_y, [''ANT'', ''OWL''])])"
  by (simp add: ac3_def revise_def dict_get_def py_index_def set_remove_def cross_puzzle_def)

theorem ac3_arc_consistent_witness:
  "wf_crossword (cross_puzzle [''CAT'', ''DOG'', ''ANT'', ''OWL'']) \<and>
   ac3 (cross_puzzle [''CAT'', ''DOG'', ''ANT'', ''OWL'']) None
     [(slot_x, [''CAT'', ''DOG'', ''ANT'', ''OWL'']), (slot_y, [''CAT'', ''DOG'', ''ANT'', ''OWL''])]
   = Inr (True, [(slot_x, [''CAT'', ''DOG'']), (slot_y, [''ANT'', ''OWL''])]) \<and>
   (\<exists>v\<in>set [''ANT'', ''OWL'']. agree ''DOG'' 1 v 0) \<and>
   (\<exists>w\<in>set [''CAT'', ''DOG'']. agree ''ANT'' 0 w 1)"
proof -
  let ?cw = "cross_puzzle [''CAT'', ''DOG'', ''ANT'', ''OWL'']"
  let ?d' = "[(slot_x, [''CAT'', ''DOG'']), (slot_y, [''ANT'', ''OWL''])]"
  note all = ac3_arc_consistent[OF wf_cross_puzzle cross_puzzle_ac3]
  have x: "slot_x \<in> set (variables ?cw)" "slot_y \<in> set (neighbors ?cw slot_x)"
    "overlaps ?cw (slot_x, slot_y) = Some (1, 0) \<and> map_of ?d' slot_x = Some [''CAT'', ''DOG'']
       \<and> map_of ?d' slot_y = Some [''ANT'', ''OWL'']"
    by (simp_all add: cross_puzzle_def)
  have y: "slot_y \<in> set (variables ?cw)" "slot_x \<in> set (neighbors ?cw slot_y)"
    "overlaps ?cw (slot_y, slot_x) = Some (0, 1) \<and> map_of ?d' slot_y = Some [''ANT'', ''OWL'']
       \<and> map_of ?d' slot_x = Some [''CAT'', ''DOG'']"
    by (simp_all add: cross_puzzle_def)
  from all x have "\<forall>w\<in>set [''CAT'', ''DOG'']. \<exists>v\<in>set [''ANT'', ''OWL'']. agree w 1 v 0"
    by blast
  then have 1: "\<exists>v\<in>set [''ANT'', ''OWL'']. agree ''DOG'' 1 v 0" by simp
  from all y have "\<forall>w\<in>set [''ANT'', ''OWL'']. \<exists>v\<in>set [''CAT'', ''DOG'']. agree w 0 v 1"
    by blast
  then have 2: "\<exists>w\<in>set [''CAT'', ''DOG'']. agree ''ANT'' 0 w 1" by simp
  from wf_cross_puzzle cross_puzzle_ac3 1 2 show ?thesis by blast
qed

section \<open>The heuristics on concrete puzzles\<close>

lemma four_puzzle_node:
  "enforce_node_consistency four_puzzle (init_domains four_puzzle)
     = Inr [(slot_a, [''CAT'']), (slot_b, [''FISH'']),
            (slot_c, [''BC'', ''BD'']), (slot_d, [''BC'', ''BD''])]"
  by (simp add: enforce_node_consistency_def init_domains_def four_puzzle_def dict_get_def
      set_remove_def)

lemma four_puzzle_ac3:
  "ac3 four_puzzle None
     [(slot_a, [''CAT'']), (slot_b, [''FISH'']),
      (slot_c, [''BC'', ''BD'']), (slot_d, [''BC'', ''BD''])]
   = Inr (True, [(slot_a, [''CAT'']), (slot_b, [''FISH'']),
            (slot_c, [''BC'', ''BD'']), (slot_d, [''BC'', ''BD''])])"
  by (simp add: ac3_def revise_def dict_get_def py_index_def set_remove_def four_puzzle_def)

text \<open>
  Claim C4. \<^verbatim>\<open>select_unassigned_variable\<close> need not return a slot whose domain is
  smallest. In the second puzzle, in the store that node consistency and \<^verbatim>\<open>ac3\<close>
  leave, the slots \<^const>\<open>slot_a\<close> and \<^const>\<open>slot_b\<close> have one word each and the
  crossing slots two; the loop that collects the ties also takes the last of the two
  crossing slots, which tie with each other, and the sort on the degree puts it first.
\<close>

theorem select_unassigned_variable_not_minimum:
  "enforce_node_consistency four_puzzle (init_domains four_puzzle)
     = Inr [(slot_a, [''CAT'']), (slot_b, [''FISH'']),
            (slot_c, [''BC'', ''BD'']), (slot_d, [''BC'', ''BD''])] \<and>
   ac3 four_puzzle None
     [(slot_a, [''CAT'']), (slot_b, [''FISH'']),
      (slot_c, [''BC'', ''BD'']), (slot_d, [''BC'', ''BD''])]
     = Inr (True, [(slot_a, [''CAT'']), (slot_b, [''FISH'']),
            (slot_c, [''BC'', ''BD'']), (slot_d, [''BC'', ''BD''])]) \<and>
   select_unassigned_variable four_puzzle
     [(slot_a, [''CAT'']), (slot_b, [''FISH'']),
      (slot_c, [''BC'', ''BD'']), (slot_d, [''BC'', ''BD''])] []
     = Inr slot_d"
proof -
  have "select_unassigned_variable four_puzzle
     [(slot_a, [''CAT'']), (slot_b, [''FISH'']),
      (slot_c, [''BC'', ''BD'']), (slot_d, [''BC'', ''BD''])] []
     = Inr slot_d"
    by (simp add: select_unassigned_variable_def four_puzzle_def dict_get_def list_remove_def
        list_get_def get_mrv_def get_degree_def get_var_def)
  with four_puzzle_node four_puzzle_ac3 show ?thesis by simp
qed

lemma cross_puzzle_lcv_node:
  "enforce_node_consistency (cross_puzzle [''CAC'', ''ABA'', ''BAB''])
     (init_domains (cross_puzzle [''CAC'', ''ABA'', ''BAB'']))
   = Inr [(slot_x, [''CAC'', ''ABA'', ''BAB'']), (slot_y, [''CAC'', ''ABA'', ''BAB''])]"
  by (simp add: enforce_node_consistency_def init_domains_def cross_puzzle_def dict_get_def
      set_remove_def)

lemma cross_puzzle_lcv_ac3:
  "ac3 (cross_puzzle [''CAC'', ''ABA'', ''BAB'']) None
     [(slot_x, [''CAC'', ''ABA'', ''BAB'']), (slot_y, [''CAC'', ''ABA'', ''BAB''])]
   = Inr (True, [(slot_x, [''CAC'', ''ABA'', ''BAB'']), (slot_y, [''ABA'', ''BAB''])])"
  by (simp add: ac3_def revise_def dict_get_def py_index_def set_remove_def cross_puzzle_def)

text \<open>
  Claim C3. \<^verbatim>\<open>order_domain_values\<close> sorts with \<^verbatim>\<open>reverse=True\<close>, so the words
  of highest cost come first. In the first puzzle with the words CAC, ABA, BAB, in the
  store that node consistency and \<^verbatim>\<open>ac3\<close> leave, the word CAC of the across slot has
  cost 0 and the two others cost 1 (each is a candidate of the down slot); CAC is tried
  last.
\<close>

theorem order_domain_values_highest_cost_first:
  "enforce_node_consistency (cross_puzzle [''CAC'', ''ABA'', ''BAB''])
     (init_domains (cross_puzzle [''CAC'', ''ABA'', ''BAB'']))
     = Inr [(slot_x, [''CAC'', ''ABA'', ''BAB'']), (slot_y, [''CAC'', ''ABA'', ''BAB''])] \<and>
   ac3 (cross_puzzle [''CAC'', ''ABA'', ''BAB'']) None
     [(slot_x, [''CAC'', ''ABA'', ''BAB'']), (slot_y, [''CAC'', ''ABA'', ''BAB''])]
     = Inr (True, [(slot_x, [''CAC'', ''ABA'', ''BAB'']), (slot_y, [''ABA'', ''BAB''])]) \<and>
   order_domain_values (cross_puzzle [''CAC'', ''ABA'', ''BAB''])
     [(slot_x, [''CAC'', ''ABA'', ''BAB'']), (slot_y, [''ABA'', ''BAB''])] slot_x []
     = Inr [''ABA'', ''BAB'', ''CAC'']"
proof -
  have "order_domain_values (cross_puzzle [''CAC'', ''ABA'', ''BAB''])
     [(slot_x, [''CAC'', ''ABA'', ''BAB'']), (slot_y, [''ABA'', ''BAB''])] slot_x []
     = Inr [''ABA'', ''BAB'', ''CAC'']"
    by (simp add: order_domain_values_def cross_puzzle_def dict_get_def get_cost_def)
  with cross_puzzle_lcv_node cross_puzzle_lcv_ac3 show ?thesis by simp
qed

lemma cross_puzzle_empty_node:
  "enforce_node_consistency (cross_puzzle [''AB'']) (init_domains (cross_puzzle [''AB'']))
     = Inr [(slot_x, []), (slot_y, [])]"
  by (simp add: enforce_node_consistency_def init_domains_def cross_puzzle_def dict_get_def
      set_remove_def)

text \<open>
  Claim C5. \<^verbatim>\<open>ac3\<close> can return \<^verbatim>\<open>True\<close> with an empty domain in the store. In
  the first puzzle with no word of three letters, node consistency empties both domains;
  \<^verbatim>\<open>revise\<close> then has nothing to remove, so no arc is revised and the test for an
  empty domain, which follows a revision only, is never reached.
\<close>

theorem ac3_true_with_empty_domain:
  "enforce_node_consistency (cross_puzzle [''AB'']) (init_domains (cross_puzzle [''AB'']))
     = Inr [(slot_x, []), (slot_y, [])] \<and>
   ac3 (cross_puzzle [''AB'']) None [(slot_x, []), (slot_y, [])]
     = Inr (True, [(slot_x, []), (slot_y, [])])"
proof -
  have "ac3 (cross_puzzle [''AB'']) None [(slot_x, []), (slot_y, [])]
     = Inr (True, [(slot_x, []), (slot_y, [])])"
    by (simp add: ac3_def revise_def dict_get_def cross_puzzle_def)
  with cross_puzzle_empty_node show ?thesis by simp
qed

section \<open>The recursion of the search\<close>

lemma backtrack_cases:
  assumes "backtrack cw d a = Inr r"
  obtains (complete) "assignment_complete cw a" "r = (Some a, d, 1)"
  | (search) var vals result d' deepest where
      "\<not> assignment_complete cw a" "select_unassigned_variable cw d a = Inr var"
      "order_domain_values cw d var a = Inr vals"
      "backtrack_values cw d a var vals 0 = Inr (result, d', deepest)"
      "r = (result, d', Suc deepest)"
  using assms by (subst (asm) backtrack.simps) (auto split: if_splits sum.splits)

lemma backtrack_values_cases:
  assumes "backtrack_values cw d a var (val # rest) deepest = Inr r"
  obtains (found) solution d' depth where
      "consistent cw (AList.update var val a) = Inr True"
      "backtrack cw d (AList.update var val a) = Inr (Some solution, d', depth)"
      "r = (Some solution, d', max deepest depth)"
  | (failed) d' depth where
      "consistent cw (AList.update var val a) = Inr True"
      "backtrack cw d (AList.update var val a) = Inr (None, d', depth)"
      "backtrack_values cw d' (AList.delete var (AList.update var val a)) var rest
         (max deepest depth) = Inr r"
  | (inconsistent)
      "consistent cw (AList.update var val a) = Inr False"
      "backtrack_values cw d (AList.delete var (AList.update var val a)) var rest deepest = Inr r"
  using assms
  by (simp add: Let_def split: sum.splits if_splits option.splits prod.splits)

lemma backtrack_frame:
  shows "backtrack cw d a = Inr (r, d', k) \<Longrightarrow> d' = d"
    and "backtrack_values cw d a var vals deepest = Inr (r, d', k) \<Longrightarrow> d' = d"
proof (induction cw d a and cw d a var vals deepest arbitrary: r d' k and r d' k
    rule: backtrack_backtrack_values.induct)
  case (1 cw d a)
  from "1.prems" show ?case
  proof (cases rule: backtrack_cases)
    case complete
    then show ?thesis by simp
  next
    case (search var vals result d1 deepest)
    from "1.IH"[OF search(1,2,3,4)] search(5) show ?thesis by simp
  qed
next
  case (2 cw d a var deepest)
  then show ?case by simp
next
  case (3 cw d a var val rest deepest)
  from "3.prems" show ?case
  proof (cases rule: backtrack_values_cases)
    case (found solution d1 depth)
    from "3.IH"(1)[OF refl found(1) _ found(2)] found(3) show ?thesis by simp
  next
    case (failed d1 depth)
    from "3.IH"(1)[OF refl failed(1) _ failed(2)] have "d1 = d" by simp
    moreover from "3.IH"(2)[OF refl failed(1) _ failed(2) refl refl refl failed(3)]
    have "d' = d1" by simp
    ultimately show ?thesis by simp
  next
    case inconsistent
    from "3.IH"(3)[OF refl inconsistent(1) _ inconsistent(2)] show ?thesis by simp
  qed
qed

text \<open>With the store fixed, the recursion of \<^const>\<open>backtrack\<close> as an induction rule.\<close>

lemma backtrack_induct [case_names frame nil cons]:
  assumes frame: "\<And>a. (\<And>var vals. \<not> assignment_complete cw a \<Longrightarrow>
                         select_unassigned_variable cw d a = Inr var \<Longrightarrow>
                         order_domain_values cw d var a = Inr vals \<Longrightarrow> Q a var vals 0)
                   \<Longrightarrow> P a"
    and nil: "\<And>a var deepest. Q a var [] deepest"
    and cons: "\<And>a var val rest deepest.
                 (consistent cw (AList.update var val a) = Inr True \<Longrightarrow> P (AList.update var val a)) \<Longrightarrow>
                 (\<And>depth. consistent cw (AList.update var val a) = Inr True \<Longrightarrow>
                    backtrack cw d (AList.update var val a) = Inr (None, d, depth) \<Longrightarrow>
                    Q (AList.delete var a) var rest (max deepest depth)) \<Longrightarrow>
                 (consistent cw (AList.update var val a) = Inr False \<Longrightarrow>
                    Q (AList.delete var a) var rest deepest) \<Longrightarrow>
                 Q a var (val # rest) deepest"
  shows "P a" and "Q a var vals deepest"
proof -
  have "cw' = cw \<and> d' = d \<longrightarrow> P a" and "cw' = cw \<and> d' = d \<longrightarrow> Q a var vals deepest"
    for cw' d'
  proof (induction cw' d' a and cw' d' a var vals deepest
      rule: backtrack_backtrack_values.induct)
    case (1 cw' d' a)
    show ?case
    proof
      assume eq: "cw' = cw \<and> d' = d"
      show "P a"
      proof (rule frame)
        fix var vals
        assume "\<not> assignment_complete cw a" "select_unassigned_variable cw d a = Inr var"
          "order_domain_values cw d var a = Inr vals"
        with "1.IH"[of var vals] eq show "Q a var vals 0" by simp
      qed
    qed
  next
    case (2 cw' d' a var deepest)
    show ?case by (simp add: nil)
  next
    case (3 cw' d' a var val rest deepest)
    show ?case
    proof
      assume eq: "cw' = cw \<and> d' = d"
      show "Q a var (val # rest) deepest"
      proof (rule cons)
        assume "consistent cw (AList.update var val a) = Inr True"
        with "3.IH"(1)[OF refl, of True] eq show "P (AList.update var val a)" by simp
      next
        fix depth
        assume c: "consistent cw (AList.update var val a) = Inr True"
          and b: "backtrack cw d (AList.update var val a) = Inr (None, d, depth)"
        from "3.IH"(2)[OF refl, of True "(None, d, depth)" None "(d, depth)" d depth] c b eq
        show "Q (AList.delete var a) var rest (max deepest depth)"
          by (simp add: delete_update_same)
      next
        assume "consistent cw (AList.update var val a) = Inr False"
        with "3.IH"(3)[OF refl, of False] eq show "Q (AList.delete var a) var rest deepest"
          by (simp add: delete_update_same)
      qed
    qed
  qed
  then show "P a" and "Q a var vals deepest" by simp_all
qed

text \<open>The two ways a call returns, with the store known to be unchanged.\<close>

lemma backtrack_values_cases':
  assumes "backtrack_values cw d a var (val # rest) deepest = Inr (r, d', k)"
  obtains (found) solution depth where
      "consistent cw (AList.update var val a) = Inr True"
      "backtrack cw d (AList.update var val a) = Inr (Some solution, d, depth)"
      "r = Some solution" "k = max deepest depth"
  | (failed) depth where
      "consistent cw (AList.update var val a) = Inr True"
      "backtrack cw d (AList.update var val a) = Inr (None, d, depth)"
      "backtrack_values cw d (AList.delete var a) var rest (max deepest depth) = Inr (r, d, k)"
  | (inconsistent)
      "consistent cw (AList.update var val a) = Inr False"
      "backtrack_values cw d (AList.delete var a) var rest deepest = Inr (r, d, k)"
proof -
  have d': "d' = d" using assms by (rule backtrack_frame(2))
  from assms show ?thesis
  proof (cases rule: backtrack_values_cases)
    case (found solution d1 depth)
    moreover from found(2) have "d1 = d" by (rule backtrack_frame(1))
    ultimately show ?thesis using that(1) by simp
  next
    case (failed d1 depth)
    moreover from failed(2) have "d1 = d" by (rule backtrack_frame(1))
    ultimately show ?thesis using that(2) d' by (simp add: delete_update_same)
  next
    case inconsistent
    then show ?thesis using that(3) d' by (simp add: delete_update_same)
  qed
qed

lemma backtrack_cases':
  assumes "backtrack cw d a = Inr (r, d', k)"
  obtains (complete) "assignment_complete cw a" "r = Some a" "k = 1"
  | (search) var vals deepest where
      "\<not> assignment_complete cw a" "select_unassigned_variable cw d a = Inr var"
      "order_domain_values cw d var a = Inr vals"
      "backtrack_values cw d a var vals 0 = Inr (r, d, deepest)"
      "k = Suc deepest"
proof -
  from assms show ?thesis
  proof (cases rule: backtrack_cases)
    case complete
    then show ?thesis using that(1) by simp
  next
    case (search var vals result d1 deepest)
    moreover from search(4) have "d1 = d" by (rule backtrack_frame(2))
    ultimately show ?thesis using that(2) by simp
  qed
qed

section \<open>Solutions are valid\<close>

lemma consistent_neighbors_True:
  "consistent_neighbors cw a var ns = Inr True \<Longrightarrow> n \<in> set ns \<Longrightarrow> n \<in> set (map fst a) \<Longrightarrow>
     \<exists>i j w w'. overlaps cw (var, n) = Some (i, j) \<and> map_of a var = Some w \<and>
                 map_of a n = Some w' \<and> agree w i w' j"
proof (induction ns)
  case Nil
  then show ?case by simp
next
  case (Cons m ns)
  show ?case
  proof (cases "m \<in> set (map fst a)")
    case False
    with Cons.prems have "consistent_neighbors cw a var ns = Inr True" "n \<in> set ns"
      by (auto simp: Let_def)
    with Cons.IH Cons.prems(3) show ?thesis by blast
  next
    case True
    with Cons.prems(1) obtain w i j c w' where
      w: "map_of a var = Some w" and ov: "overlaps cw (var, m) = Some (i, j)" and
      c: "py_index w i = Inr c" and w': "map_of a m = Some w'" and c': "py_index w' j = Inr c" and
      rest: "consistent_neighbors cw a var ns = Inr True"
      by (auto simp: Let_def dict_get_def split: sum.splits option.splits if_splits)
    show ?thesis
    proof (cases "n = m")
      case True
      with w ov c w' c' show ?thesis by (auto simp: agree_def)
    next
      case False
      with Cons.prems(2) have "n \<in> set ns" by simp
      with Cons.IH rest Cons.prems(3) show ?thesis by blast
    qed
  qed
qed

lemma consistent_vars_True:
  "consistent_vars cw a vs seen = Inr True \<Longrightarrow> distinct seen \<Longrightarrow>
     distinct (seen @ map (\<lambda>v. the (map_of a v)) vs) \<and>
     (\<forall>v\<in>set vs. \<exists>w. map_of a v = Some w \<and> int (length w) = var_length v \<and>
        consistent_neighbors cw a v (neighbors cw v) = Inr True)"
proof (induction vs arbitrary: seen)
  case Nil
  then show ?case by simp
next
  case (Cons v vs)
  from Cons.prems(1) obtain w where
    w: "map_of a v = Some w" "w \<notin> set seen" "int (length w) = var_length v" and
    nb: "consistent_neighbors cw a v (neighbors cw v) = Inr True" and
    rest: "consistent_vars cw a vs (seen @ [w]) = Inr True"
    by (auto simp: dict_get_def split: sum.splits option.splits if_splits)
  from w(2) Cons.prems(2) have "distinct (seen @ [w])" by simp
  from Cons.IH[OF rest this] w nb show ?case by auto
qed

lemma consistent_valid:
  assumes "consistent cw a = Inr True"
  shows "valid_assignment cw a"
proof -
  let ?f = "\<lambda>v. the (map_of a v)"
  from assms have run: "consistent_vars cw a (map fst a) [] = Inr True"
    by (simp add: consistent_def)
  from consistent_vars_True[OF run] have
    dist: "distinct (map ?f (map fst a))" and
    each: "\<forall>v\<in>set (map fst a). \<exists>w. map_of a v = Some w \<and> int (length w) = var_length v \<and>
        consistent_neighbors cw a v (neighbors cw v) = Inr True"
    by simp_all
  from dist have inj: "inj_on ?f (set (map fst a))"
    using distinct_map[of ?f "map fst a"] by blast
  have key: "x \<in> set (map fst a)" if "map_of a x = Some w" for x w
    using that by (metis map_of_eq_None_iff option.distinct(1) set_map)
  have 1: "w \<noteq> w'" if "map_of a x = Some w" "map_of a y = Some w'" "x \<noteq> y" for x y w w'
  proof
    assume "w = w'"
    with that have "?f x = ?f y" by simp
    with inj key[OF that(1)] key[OF that(2)] have "x = y" by (meson inj_onD)
    with that(3) show False by simp
  qed
  have 2: "int (length w) = var_length x" if "map_of a x = Some w" for x w
    using each key[OF that] that by auto
  have 3: "\<exists>i j. overlaps cw (x, y) = Some (i, j) \<and> agree w i w' j"
    if "map_of a x = Some w" "y \<in> set (neighbors cw x)" "map_of a y = Some w'" for x y w w'
  proof -
    from each key[OF that(1)]
    have "consistent_neighbors cw a x (neighbors cw x) = Inr True" by auto
    from consistent_neighbors_True[OF this that(2) key[OF that(3)]] that(1,3)
    show ?thesis by auto
  qed
  from 1 2 3 show ?thesis unfolding valid_assignment_def by blast
qed

lemma backtrack_solution_consistent:
  shows "\<forall>s k. backtrack cw d a = Inr (Some s, d, k) \<longrightarrow>
           (s = a \<and> assignment_complete cw a) \<or>
           (consistent cw s = Inr True \<and> assignment_complete cw s)"
    and "\<forall>s k. backtrack_values cw d a var vals deepest = Inr (Some s, d, k) \<longrightarrow>
           consistent cw s = Inr True \<and> assignment_complete cw s"
proof (induction a and a var vals deepest rule: backtrack_induct[where cw=cw and d=d])
  case (frame a)
  show ?case
  proof (intro allI impI)
    fix s k assume "backtrack cw d a = Inr (Some s, d, k)"
    then show "(s = a \<and> assignment_complete cw a) \<or>
           (consistent cw s = Inr True \<and> assignment_complete cw s)"
    proof (cases rule: backtrack_cases')
      case complete
      then show ?thesis by simp
    next
      case (search var vals deepest)
      with frame show ?thesis by blast
    qed
  qed
next
  case (nil a var deepest)
  show ?case by simp
next
  case (cons a var val rest deepest)
  show ?case
  proof (intro allI impI)
    fix s k assume "backtrack_values cw d a var (val # rest) deepest = Inr (Some s, d, k)"
    then show "consistent cw s = Inr True \<and> assignment_complete cw s"
    proof (cases rule: backtrack_values_cases')
      case (found solution depth)
      with cons(1) show ?thesis by auto
    next
      case (failed depth)
      with cons(2) show ?thesis by blast
    next
      case inconsistent
      with cons(3) show ?thesis by blast
    qed
  qed
qed

lemma backtrack_solution_valid_aux:
  assumes "backtrack cw d a = Inr (Some s, d', k)"
    and "assignment_complete cw a \<longrightarrow> valid_assignment cw a"
  shows "assignment_complete cw s \<and> valid_assignment cw s"
proof -
  from assms(1) have "d' = d" by (rule backtrack_frame(1))
  with assms(1) backtrack_solution_consistent(1)[of cw d a]
  have "(s = a \<and> assignment_complete cw a) \<or>
        (consistent cw s = Inr True \<and> assignment_complete cw s)"
    by blast
  with assms(2) show ?thesis by (auto intro: consistent_valid)
qed

lemma valid_assignment_empty: "valid_assignment cw []"
  by (simp add: valid_assignment_def)

text \<open>
  Claim C2. An assignment that \<^verbatim>\<open>solve\<close> returns assigns every slot, and in it the
  words of different slots differ, every word has the length of its slot, and the words
  of two assigned neighbours agree at their overlap. The same holds of an assignment
  that \<^verbatim>\<open>backtrack\<close> returns, unless the dictionary it was called with was already
  complete and not valid (\<^verbatim>\<open>backtrack\<close> returns a complete dictionary unchecked).
\<close>

theorem backtrack_solution_valid:
  "(solve cw = Inr (Some s, k) \<longrightarrow> assignment_complete cw s \<and> valid_assignment cw s) \<and>
   (backtrack cw d a = Inr (Some s, d', k) \<and>
      (assignment_complete cw a \<longrightarrow> valid_assignment cw a)
        \<longrightarrow> assignment_complete cw s \<and> valid_assignment cw s)"
proof (rule conjI)
  show "solve cw = Inr (Some s, k) \<longrightarrow> assignment_complete cw s \<and> valid_assignment cw s"
  proof
    assume "solve cw = Inr (Some s, k)"
    then obtain d2 d3 where "backtrack cw d2 [] = Inr (Some s, d3, k)"
      by (auto simp: solve_def split: sum.splits prod.splits)
    then show "assignment_complete cw s \<and> valid_assignment cw s"
      using backtrack_solution_valid_aux[of cw d2 "[]" s d3 k]
      by (simp add: valid_assignment_empty)
  qed
next
  show "backtrack cw d a = Inr (Some s, d', k) \<and>
      (assignment_complete cw a \<longrightarrow> valid_assignment cw a)
        \<longrightarrow> assignment_complete cw s \<and> valid_assignment cw s"
    using backtrack_solution_valid_aux[of cw d a s d' k] by blast
qed

lemma cross_puzzle_node:
  "enforce_node_consistency (cross_puzzle [''CAT'', ''DOG'', ''ANT'', ''OWL''])
     (init_domains (cross_puzzle [''CAT'', ''DOG'', ''ANT'', ''OWL'']))
   = Inr [(slot_x, [''CAT'', ''DOG'', ''ANT'', ''OWL'']),
          (slot_y, [''CAT'', ''DOG'', ''ANT'', ''OWL''])]"
  by (simp add: enforce_node_consistency_def init_domains_def cross_puzzle_def dict_get_def
      set_remove_def)

lemma cross_puzzle_backtrack:
  "backtrack (cross_puzzle [''CAT'', ''DOG'', ''ANT'', ''OWL''])
     [(slot_x, [''CAT'', ''DOG'']), (slot_y, [''ANT'', ''OWL''])] []
   = Inr (Some [(slot_x, ''CAT''), (slot_y, ''ANT'')],
          [(slot_x, [''CAT'', ''DOG'']), (slot_y, [''ANT'', ''OWL''])], 3)"
  by (simp add: backtrack.simps assignment_complete_def select_unassigned_variable_def
      order_domain_values_def consistent_def cross_puzzle_def dict_get_def list_remove_def
      list_get_def get_mrv_def get_degree_def get_var_def get_cost_def py_index_def)

lemma cross_puzzle_solve:
  "solve (cross_puzzle [''CAT'', ''DOG'', ''ANT'', ''OWL''])
     = Inr (Some [(slot_x, ''CAT''), (slot_y, ''ANT'')], 3)"
  by (simp add: solve_def cross_puzzle_node cross_puzzle_ac3 cross_puzzle_backtrack)

theorem backtrack_solution_valid_witness:
  "solve (cross_puzzle [''CAT'', ''DOG'', ''ANT'', ''OWL''])
     = Inr (Some [(slot_x, ''CAT''), (slot_y, ''ANT'')], 3) \<and>
   assignment_complete (cross_puzzle [''CAT'', ''DOG'', ''ANT'', ''OWL''])
     [(slot_x, ''CAT''), (slot_y, ''ANT'')] \<and>
   valid_assignment (cross_puzzle [''CAT'', ''DOG'', ''ANT'', ''OWL''])
     [(slot_x, ''CAT''), (slot_y, ''ANT'')]"
  using backtrack_solution_valid[of "cross_puzzle [''CAT'', ''DOG'', ''ANT'', ''OWL'']"
      "[(slot_x, ''CAT''), (slot_y, ''ANT'')]" 3]
    cross_puzzle_solve
  by blast

section \<open>The search leaves the store alone\<close>

text \<open>
  Claim C10. The search does not write the domain store. \<^verbatim>\<open>backtrack\<close> and its loop
  are the only functions of the search that the model gives a store to hand on
  (\<^verbatim>\<open>select_unassigned_variable\<close>, \<^verbatim>\<open>order_domain_values\<close>, \<^verbatim>\<open>consistent\<close> and
  \<^verbatim>\<open>assignment_complete\<close> only read it, or do not read it at all); whatever a call
  of \<^verbatim>\<open>backtrack\<close> returns, a solution or \<^verbatim>\<open>None\<close>, the store it leaves is the
  store it was given, entry by entry.
\<close>

theorem backtrack_leaves_domains:
  assumes "backtrack cw d a = Inr (result, d', depth)"
  shows "d' = d"
proof (cases result)
  case None
  with assms have "backtrack cw d a = Inr (None, d', depth)" by simp
  then show ?thesis by (rule backtrack_frame(1))
next
  case (Some solution)
  with assms have "backtrack cw d a = Inr (Some solution, d', depth)" by simp
  then show ?thesis by (rule backtrack_frame(1))
qed

lemma cross_puzzle_backtrack_none:
  "backtrack (cross_puzzle [''CAT'', ''DOG'', ''ANT'', ''OWL''])
     [(slot_x, [''CAT'', ''DOG'']), (slot_y, [])] []
   = Inr (None, [(slot_x, [''CAT'', ''DOG'']), (slot_y, [])], 1)"
  by (simp add: backtrack.simps assignment_complete_def select_unassigned_variable_def
      order_domain_values_def consistent_def cross_puzzle_def dict_get_def list_remove_def
      list_get_def get_mrv_def get_degree_def get_var_def get_cost_def py_index_def)

theorem backtrack_leaves_domains_witness:
  "(\<exists>d' depth. backtrack (cross_puzzle [''CAT'', ''DOG'', ''ANT'', ''OWL''])
       [(slot_x, [''CAT'', ''DOG'']), (slot_y, [''ANT'', ''OWL''])] []
     = Inr (Some [(slot_x, ''CAT''), (slot_y, ''ANT'')], d', depth) \<and>
     d' = [(slot_x, [''CAT'', ''DOG'']), (slot_y, [''ANT'', ''OWL''])]) \<and>
   (\<exists>d' depth. backtrack (cross_puzzle [''CAT'', ''DOG'', ''ANT'', ''OWL''])
       [(slot_x, [''CAT'', ''DOG'']), (slot_y, [])] []
     = Inr (None, d', depth) \<and>
     d' = [(slot_x, [''CAT'', ''DOG'']), (slot_y, [])])"
  using backtrack_leaves_domains[OF cross_puzzle_backtrack]
    backtrack_leaves_domains[OF cross_puzzle_backtrack_none]
    cross_puzzle_backtrack cross_puzzle_backtrack_none
  by blast

section \<open>When the search raises nothing\<close>

lemma select_keys_absent:
  "var \<notin> set keys \<Longrightarrow> select_unassigned_variable_keys var keys vn = Inr vn"
  by (induction keys arbitrary: vn) auto

lemma select_keys_returns:
  "distinct keys \<Longrightarrow> var \<in> set vn \<Longrightarrow>
     select_unassigned_variable_keys var keys vn
       = Inr (if var \<in> set keys then remove1 var vn else vn)"
proof (induction keys)
  case Nil
  then show ?case by simp
next
  case (Cons key keys)
  show ?case
  proof (cases "var = key")
    case True
    with Cons.prems have "var \<notin> set keys" by simp
    with True Cons.prems(2) show ?thesis
      by (simp add: list_remove_def select_keys_absent)
  next
    case False
    with Cons show ?thesis by simp
  qed
qed

lemma select_old_returns:
  "distinct keys \<Longrightarrow> distinct vs \<Longrightarrow> set vs \<subseteq> set vn \<Longrightarrow>
     \<exists>vn'. select_unassigned_variable_old vs keys vn = Inr vn'"
proof (induction vs arbitrary: vn)
  case Nil
  then show ?case by simp
next
  case (Cons v vs)
  let ?vn1 = "if v \<in> set keys then remove1 v vn else vn"
  from Cons.prems have step: "select_unassigned_variable_keys v keys vn = Inr ?vn1"
    by (simp add: select_keys_returns)
  have "set vs \<subseteq> set ?vn1"
  proof
    fix x assume x: "x \<in> set vs"
    with Cons.prems have "x \<noteq> v" "x \<in> set vn" by auto
    then show "x \<in> set ?vn1" by (simp add: in_set_remove1)
  qed
  from Cons.IH[OF Cons.prems(1) _ this] Cons.prems(2) step show ?case by simp
qed

lemma select_entries_returns:
  "\<forall>v\<in>set vn. \<exists>ws. map_of d v = Some ws \<Longrightarrow>
     \<exists>es. select_unassigned_variable_entries cw d vn acc = Inr es"
  by (induction vn arbitrary: acc) (auto simp: dict_get_def)

lemma select_unassigned_variable_returns:
  assumes "distinct (variables cw)" and "distinct (map fst a)"
    and "\<forall>v\<in>set (variables cw). \<exists>ws. map_of d v = Some ws"
    and "unassigned cw a \<noteq> {}"
  shows "\<exists>var. select_unassigned_variable cw d a = Inr var"
proof -
  from select_old_returns[OF assms(2) assms(1), of "variables cw"] obtain vn where
    vn: "select_unassigned_variable_old (variables cw) (map fst a) (variables cw) = Inr vn"
    by auto
  from select_old_set[OF vn] have set_vn: "set vn = unassigned cw a"
    by (simp add: unassigned_def)
  with assms(3) have "\<forall>v\<in>set vn. \<exists>ws. map_of d v = Some ws"
    by (auto simp: unassigned_def)
  from select_entries_returns[OF this] obtain es where
    es: "select_unassigned_variable_entries cw d vn [] = Inr es" by blast
  from select_entries_map[OF es] have "length es = length vn"
    by (metis append_Nil length_map list.simps(8))
  moreover from set_vn assms(4) have "vn \<noteq> []" by auto
  ultimately have len: "0 < length (sort_key get_mrv es)" by simp
  define vs where "vs = sort_key get_mrv es"
  from len have vs0: "list_get vs 0 = Inr (vs ! 0)" by (simp add: list_get_def vs_def)
  define tied where "tied = sort_key (\<lambda>e. - int (get_degree e))
                     (select_unassigned_variable_ties vs [vs ! 0])"
  have "0 < length tied"
    using select_ties_nonempty[of "[vs ! 0]" vs] by (simp add: tied_def)
  then have ties: "list_get tied 0 = Inr (tied ! 0)" by (simp add: list_get_def)
  show ?thesis
  proof (cases "length vs = 1")
    case True
    with vn es vs0 show ?thesis
      by (simp add: select_unassigned_variable_def vs_def[symmetric])
  next
    case False
    with len have "1 < length vs" unfolding vs_def by linarith
    then have "list_get vs 1 = Inr (vs ! 1)" by (simp add: list_get_def)
    with vn es vs0 ties False show ?thesis
      by (simp add: select_unassigned_variable_def vs_def[symmetric] tied_def[symmetric])
  qed
qed

lemma order_cost_returns:
  "\<forall>n\<in>set ns. \<exists>ws. map_of d n = Some ws \<Longrightarrow>
     \<exists>c. order_domain_values_cost d a val ns cost = Inr c"
  by (induction ns arbitrary: cost) (auto simp: dict_get_def)

lemma order_entries_map:
  "order_domain_values_entries cw d var a vals acc = Inr es \<Longrightarrow>
     map fst es = map fst acc @ vals"
  by (induction vals arbitrary: acc) (auto split: sum.splits)

lemma order_entries_returns:
  assumes "\<forall>n\<in>set (neighbors cw var). \<exists>ws. map_of d n = Some ws"
  shows "\<exists>es. order_domain_values_entries cw d var a vals acc = Inr es"
proof (induction vals arbitrary: acc)
  case Nil
  then show ?case by simp
next
  case (Cons val vals)
  from order_cost_returns[OF assms] obtain c where
    "order_domain_values_cost d a val (neighbors cw var) 0 = Inr c" by blast
  with Cons.IH show ?case by simp
qed

lemma order_domain_values_result:
  assumes "order_domain_values cw d var a = Inr vals"
  shows "\<exists>ws. map_of d var = Some ws \<and> set vals = set ws"
proof -
  from assms obtain ws es where
    ws: "map_of d var = Some ws" and
    es: "order_domain_values_entries cw d var a ws [] = Inr es" and
    vals: "vals = map fst (sort_key (\<lambda>e. - int (get_cost e)) es)"
    by (auto simp: order_domain_values_def dict_get_def split: option.splits sum.splits)
  from order_entries_map[OF es] have "map fst es = ws" by simp
  then have "set ws = fst ` set es" by (metis set_map)
  with vals ws show ?thesis by simp
qed

lemma order_domain_values_returns:
  assumes "map_of d var = Some ws"
    and "\<forall>n\<in>set (neighbors cw var). \<exists>ws. map_of d n = Some ws"
  shows "\<exists>vals. order_domain_values cw d var a = Inr vals"
  using assms(1) order_entries_returns[OF assms(2), of a ws "[]"]
  by (auto simp: order_domain_values_def dict_get_def)

lemma py_index_returns:
  "0 \<le> k \<Longrightarrow> k < int (length w) \<Longrightarrow> \<exists>c. py_index w k = Inr c"
  by (simp add: py_index_def Let_def)

lemma consistent_neighbors_returns:
  assumes wf: "wf_crossword cw" and v: "v \<in> set (variables cw)"
    and w: "map_of a v = Some w" "int (length w) = var_length v"
    and len: "\<forall>p\<in>set a. int (length (snd p)) = var_length (fst p)"
  shows "set ns \<subseteq> set (neighbors cw v) \<Longrightarrow> \<exists>b. consistent_neighbors cw a v ns = Inr b"
proof (induction ns)
  case Nil
  show ?case by (rule exI[of _ True]) simp
next
  case (Cons n ns)
  then obtain b where rest: "consistent_neighbors cw a v ns = Inr b" by auto
  show ?case
  proof (cases "n \<in> set (map fst a)")
    case False
    with rest show ?thesis by (simp add: Let_def)
  next
    case True
    then obtain w' where w': "map_of a n = Some w'"
      by (metis map_of_eq_None_iff not_Some_eq set_map)
    then have "(n, w') \<in> set a" by (rule map_of_SomeD)
    with len have lw': "int (length w') = var_length n" by auto
    from Cons.prems have "n \<in> set (neighbors cw v)" by simp
    from wf_crossword_neighbor(4)[OF wf v this] obtain i j where
      ov: "overlaps cw (v, n) = Some (i, j)" and
      ij: "0 \<le> i" "i < var_length v" "0 \<le> j" "j < var_length n"
      by blast
    from ij w(2) obtain c where c: "py_index w i = Inr c"
      using py_index_returns[of i w] by auto
    from ij lw' obtain c' where c': "py_index w' j = Inr c'"
      using py_index_returns[of j w'] by auto
    from True w(1) w' ov c c' rest
    have "consistent_neighbors cw a v (n # ns) = Inr (if c \<noteq> c' then False else b)"
      by (simp add: Let_def dict_get_def)
    then show ?thesis by blast
  qed
qed

lemma consistent_vars_returns:
  assumes wf: "wf_crossword cw" and pa: "partial_assignment cw a"
  shows "set vs \<subseteq> set (map fst a) \<Longrightarrow> \<exists>b. consistent_vars cw a vs seen = Inr b"
proof (induction vs arbitrary: seen)
  case Nil
  show ?case by (rule exI[of _ True]) simp
next
  case (Cons v vs)
  from Cons.prems obtain w where w: "map_of a v = Some w"
    by (metis list.set_intros(1) map_of_eq_None_iff not_Some_eq set_map subsetD)
  from Cons.prems pa have v: "v \<in> set (variables cw)"
    by (auto simp: partial_assignment_def)
  from pa have len: "\<forall>p\<in>set a. int (length (snd p)) = var_length (fst p)"
    by (simp add: partial_assignment_def)
  from Cons obtain b where rest: "consistent_vars cw a vs (seen @ [w]) = Inr b" by auto
  show ?case
  proof (cases "w \<in> set seen \<or> int (length w) \<noteq> var_length v")
    case True
    with w show ?thesis by (auto simp: dict_get_def)
  next
    case False
    then have lw: "int (length w) = var_length v" by simp
    from consistent_neighbors_returns[OF wf v w lw len, of "neighbors cw v"] obtain ok where
      "consistent_neighbors cw a v (neighbors cw v) = Inr ok" by auto
    with w False rest
    have "consistent_vars cw a (v # vs) seen = Inr (if ok then b else False)"
      by (simp add: dict_get_def)
    then show ?thesis by blast
  qed
qed

lemma consistent_returns:
  "wf_crossword cw \<Longrightarrow> partial_assignment cw a \<Longrightarrow> \<exists>b. consistent cw a = Inr b"
  by (simp add: consistent_def consistent_vars_returns)

lemma update_new_key: "k \<notin> fst ` set al \<Longrightarrow> AList.update k v al = al @ [(k, v)]"
  by (induction al) auto

lemma partial_assignment_update:
  assumes "partial_assignment cw a" and "var \<in> unassigned cw a"
    and "int (length val) = var_length var"
  shows "partial_assignment cw (AList.update var val a)"
proof -
  from assms(2) have "var \<notin> fst ` set a" "var \<in> set (variables cw)"
    by (auto simp: unassigned_def)
  with assms(1,3) show ?thesis
    by (auto simp: partial_assignment_def update_new_key)
qed

lemma unassigned_nonempty:
  assumes "distinct (variables cw)" and "partial_assignment cw a"
    and "\<not> assignment_complete cw a"
  shows "unassigned cw a \<noteq> {}"
proof
  assume "unassigned cw a = {}"
  with assms(2) have "set (map fst a) = set (variables cw)"
    by (auto simp: unassigned_def partial_assignment_def)
  moreover from assms(2) have "distinct (map fst a)" by (simp add: partial_assignment_def)
  ultimately have "length (map fst a) = length (variables cw)"
    using assms(1) by (metis distinct_card)
  with assms(3) show False by (simp add: assignment_complete_def)
qed

section \<open>Termination of the search\<close>

lemma backtrack_result_shape:
  shows "\<forall>r k. backtrack cw d a = Inr (r, d, k) \<longrightarrow>
           (\<forall>s. r = Some s \<longrightarrow> assignment_complete cw s) \<and>
           0 < k \<and> k \<le> Suc (card (unassigned cw a))"
    and "\<forall>r k. backtrack_values cw d a var vals deepest = Inr (r, d, k) \<longrightarrow>
           (\<forall>s. r = Some s \<longrightarrow> assignment_complete cw s) \<and>
           k \<le> max deepest (Suc (card (unassigned cw a - {var})))"
proof (induction a and a var vals deepest rule: backtrack_induct[where cw=cw and d=d])
  case (frame a)
  show ?case
  proof (intro allI impI)
    fix r k assume "backtrack cw d a = Inr (r, d, k)"
    then show "(\<forall>s. r = Some s \<longrightarrow> assignment_complete cw s) \<and>
           0 < k \<and> k \<le> Suc (card (unassigned cw a))"
    proof (cases rule: backtrack_cases')
      case complete
      then show ?thesis by simp
    next
      case (search var vals deepest)
      from search(2) have "var \<in> unassigned cw a"
        using select_unassigned_variable_unassigned[of cw d a var] by (simp add: unassigned_def)
      then have card: "Suc (card (unassigned cw a - {var})) = card (unassigned cw a)"
        using card_Suc_Diff1[OF finite_unassigned, of var cw a] by simp
      from frame[OF search(1,2,3)] search(4)
      have "(\<forall>s. r = Some s \<longrightarrow> assignment_complete cw s) \<and>
            deepest \<le> max 0 (Suc (card (unassigned cw a - {var})))"
        by blast
      with card search(5) show ?thesis by simp
    qed
  qed
next
  case (nil a var deepest)
  show ?case by simp
next
  case (cons a var val rest deepest)
  show ?case
  proof (intro allI impI)
    fix r k assume "backtrack_values cw d a var (val # rest) deepest = Inr (r, d, k)"
    then show "(\<forall>s. r = Some s \<longrightarrow> assignment_complete cw s) \<and>
           k \<le> max deepest (Suc (card (unassigned cw a - {var})))"
    proof (cases rule: backtrack_values_cases')
      case (found solution depth)
      from cons(1)[OF found(1)] found(2)
      have "assignment_complete cw solution"
        "depth \<le> Suc (card (unassigned cw (AList.update var val a)))"
        by blast+
      with found(3,4) show ?thesis by (simp add: unassigned_update)
    next
      case (failed depth)
      from cons(1)[OF failed(1)] failed(2)
      have "depth \<le> Suc (card (unassigned cw (AList.update var val a)))" by blast
      then have depth: "depth \<le> Suc (card (unassigned cw a - {var}))"
        by (simp add: unassigned_update)
      from cons(2)[OF failed(1,2)] failed(3)
      have "(\<forall>s. r = Some s \<longrightarrow> assignment_complete cw s) \<and>
            k \<le> max (max deepest depth) (Suc (card (unassigned cw (AList.delete var a) - {var})))"
        by blast
      with depth show ?thesis by (auto simp: unassigned_delete)
    next
      case inconsistent
      from cons(3)[OF inconsistent(1)] inconsistent(2)
      show ?thesis by (simp add: unassigned_delete)
    qed
  qed
qed

lemma backtrack_returns_aux:
  assumes wf: "wf_crossword cw" and nc: "node_consistent cw d"
  shows "partial_assignment cw a \<longrightarrow> (\<exists>r k. backtrack cw d a = Inr (r, d, k))"
    and "partial_assignment cw a \<and> var \<in> unassigned cw a \<and>
         (\<forall>val\<in>set vals. int (length val) = var_length var)
           \<longrightarrow> (\<exists>r k. backtrack_values cw d a var vals deepest = Inr (r, d, k))"
proof (induction a and a var vals deepest rule: backtrack_induct[where cw=cw and d=d])
  case (frame a)
  show ?case
  proof
    assume pa: "partial_assignment cw a"
    show "\<exists>r k. backtrack cw d a = Inr (r, d, k)"
    proof (cases "assignment_complete cw a")
      case True
      then show ?thesis by (simp add: backtrack.simps)
    next
      case False
      from wf have dv: "distinct (variables cw)" by (simp add: wf_crossword_def)
      from nc have entries: "\<forall>v\<in>set (variables cw). \<exists>ws. map_of d v = Some ws"
        by (auto simp: node_consistent_def)
      from pa have "distinct (map fst a)" by (simp add: partial_assignment_def)
      from select_unassigned_variable_returns[OF dv this entries
          unassigned_nonempty[OF dv pa False]]
      obtain var where sel: "select_unassigned_variable cw d a = Inr var" by blast
      then have var: "var \<in> unassigned cw a"
        using select_unassigned_variable_unassigned[of cw d a var] by (simp add: unassigned_def)
      then have varv: "var \<in> set (variables cw)" by (simp add: unassigned_def)
      with nc obtain ws where ws: "map_of d var = Some ws"
        "\<forall>w\<in>set ws. int (length w) = var_length var"
        by (auto simp: node_consistent_def)
      have "\<forall>n\<in>set (neighbors cw var). \<exists>ws. map_of d n = Some ws"
        using wf_crossword_neighbor(1)[OF wf varv] entries by blast
      from order_domain_values_returns[OF ws(1) this] obtain vals where
        ord: "order_domain_values cw d var a = Inr vals" by blast
      from order_domain_values_result[OF ord] ws
      have "\<forall>val\<in>set vals. int (length val) = var_length var" by auto
      with frame[OF False sel ord] pa var obtain r k where
        "backtrack_values cw d a var vals 0 = Inr (r, d, k)" by blast
      with False sel ord show ?thesis by (simp add: backtrack.simps)
    qed
  qed
next
  case (nil a var deepest)
  show ?case by simp
next
  case (cons a var val rest deepest)
  show ?case
  proof
    assume h: "partial_assignment cw a \<and> var \<in> unassigned cw a \<and>
         (\<forall>v\<in>set (val # rest). int (length v) = var_length var)"
    then have pa: "partial_assignment cw a" and var: "var \<in> unassigned cw a"
      and lv: "int (length val) = var_length var"
      and lrest: "\<forall>v\<in>set rest. int (length v) = var_length var"
      by simp_all
    let ?a' = "AList.update var val a"
    from var have del: "AList.delete var a = a" by (simp add: unassigned_def)
    have pa': "partial_assignment cw ?a'"
      by (rule partial_assignment_update[OF pa var lv])
    from consistent_returns[OF wf pa'] obtain ok where ok: "consistent cw ?a' = Inr ok"
      by blast
    show "\<exists>r k. backtrack_values cw d a var (val # rest) deepest = Inr (r, d, k)"
    proof (cases ok)
      case False
      with cons(3) ok pa var lrest del obtain r k where
        "backtrack_values cw d a var rest deepest = Inr (r, d, k)" by auto
      with ok False del show ?thesis by (simp add: Let_def delete_update_same)
    next
      case True
      with cons(1) ok pa' obtain r k where bt: "backtrack cw d ?a' = Inr (r, d, k)" by auto
      show ?thesis
      proof (cases r)
        case (Some solution)
        with ok True bt show ?thesis by (simp add: Let_def)
      next
        case None
        with cons(2)[of k] ok True bt pa var lrest del obtain r' k' where
          "backtrack_values cw d a var rest (max deepest k) = Inr (r', d, k')" by auto
        with ok True bt None del show ?thesis by (simp add: Let_def delete_update_same)
      qed
    qed
  qed
qed

text \<open>
  Claim C8. A call of \<^verbatim>\<open>backtrack\<close> terminates: the recursion is well-founded, each
  nested frame has one more slot assigned. A call that returns gives \<^verbatim>\<open>None\<close> or a
  dictionary that assigns every slot, and the chain of nested frames it opened is no
  longer than the number of unassigned slots, the frame of the call not counted. On a
  well-formed puzzle, in a node-consistent store and from a dictionary that assigns slots
  words of their length, the call does return: no statement of the search raises.
\<close>

theorem backtrack_terminates:
  "(\<forall>r d' k. backtrack cw d a = Inr (r, d', k) \<longrightarrow>
      (\<forall>s. r = Some s \<longrightarrow> assignment_complete cw s) \<and> k \<le> Suc (card (unassigned cw a))) \<and>
   (wf_crossword cw \<and> node_consistent cw d \<and> partial_assignment cw a \<longrightarrow>
      (\<exists>r k. backtrack cw d a = Inr (r, d, k)))"
proof (rule conjI)
  show "\<forall>r d' k. backtrack cw d a = Inr (r, d', k) \<longrightarrow>
      (\<forall>s. r = Some s \<longrightarrow> assignment_complete cw s) \<and> k \<le> Suc (card (unassigned cw a))"
  proof (intro allI impI)
    fix r d' k assume run: "backtrack cw d a = Inr (r, d', k)"
    then have "d' = d" by (rule backtrack_frame(1))
    with run backtrack_result_shape(1)[of cw d a]
    show "(\<forall>s. r = Some s \<longrightarrow> assignment_complete cw s) \<and> k \<le> Suc (card (unassigned cw a))"
      by blast
  qed
next
  show "wf_crossword cw \<and> node_consistent cw d \<and> partial_assignment cw a \<longrightarrow>
      (\<exists>r k. backtrack cw d a = Inr (r, d, k))"
    using backtrack_returns_aux(1)[of cw d a] by blast
qed

lemma cross_puzzle_conditions:
  "node_consistent (cross_puzzle ws) [(slot_x, [''CAT'', ''DOG'']), (slot_y, [''ANT'', ''OWL''])]"
  "partial_assignment (cross_puzzle ws) []"
  "card (unassigned (cross_puzzle ws) []) = 2"
  by (simp_all add: node_consistent_def partial_assignment_def unassigned_def cross_puzzle_def)

theorem backtrack_terminates_witness:
  "wf_crossword (cross_puzzle [''CAT'', ''DOG'', ''ANT'', ''OWL'']) \<and>
   node_consistent (cross_puzzle [''CAT'', ''DOG'', ''ANT'', ''OWL''])
     [(slot_x, [''CAT'', ''DOG'']), (slot_y, [''ANT'', ''OWL''])] \<and>
   partial_assignment (cross_puzzle [''CAT'', ''DOG'', ''ANT'', ''OWL'']) [] \<and>
   backtrack (cross_puzzle [''CAT'', ''DOG'', ''ANT'', ''OWL''])
     [(slot_x, [''CAT'', ''DOG'']), (slot_y, [''ANT'', ''OWL''])] []
     = Inr (Some [(slot_x, ''CAT''), (slot_y, ''ANT'')],
            [(slot_x, [''CAT'', ''DOG'']), (slot_y, [''ANT'', ''OWL''])], 3) \<and>
   assignment_complete (cross_puzzle [''CAT'', ''DOG'', ''ANT'', ''OWL''])
     [(slot_x, ''CAT''), (slot_y, ''ANT'')] \<and>
   (3::nat) \<le> Suc (card (unassigned (cross_puzzle [''CAT'', ''DOG'', ''ANT'', ''OWL'']) []))"
proof -
  let ?cw = "cross_puzzle [''CAT'', ''DOG'', ''ANT'', ''OWL'']"
  let ?d = "[(slot_x, [''CAT'', ''DOG'']), (slot_y, [''ANT'', ''OWL''])]"
  note inst = backtrack_terminates[of ?cw ?d "[]"]
  from inst cross_puzzle_backtrack
  have "assignment_complete ?cw [(slot_x, ''CAT''), (slot_y, ''ANT'')]"
    "(3::nat) \<le> Suc (card (unassigned ?cw []))"
    by blast+
  with wf_cross_puzzle cross_puzzle_conditions(1,2) cross_puzzle_backtrack
  show ?thesis by blast
qed

section \<open>Solving a puzzle with an empty domain\<close>

lemma shrinks_refl: "shrinks d d"
  by (simp add: shrinks_def)

lemma shrinks_trans: "shrinks d d1 \<Longrightarrow> shrinks d1 d2 \<Longrightarrow> shrinks d d2"
  unfolding shrinks_def by (meson subset_trans)

lemma revise_shrinks:
  assumes "revise cw d x y = Inr (b, d')"
  shows "shrinks d d'"
proof (cases "overlaps cw (x, y)")
  case None
  with assms show ?thesis by (simp add: revise_def shrinks_refl)
next
  case (Some ov)
  obtain i j where "ov = (i, j)" by (cases ov)
  with Some have "overlaps cw (x, y) = Some (i, j)" by simp
  from revise_result[OF assms this] obtain xs ys where
    "map_of d x = Some xs" "d' = AList.update x (filter (supported i j ys) xs) d"
    by blast
  then show ?thesis by (auto simp: shrinks_def update_conv')
qed

lemma ac3_loop_shrinks:
  "ac3_loop cw queue d = Inr (b, d') \<Longrightarrow> shrinks d d'"
proof (induction cw queue d rule: ac3_loop.induct)
  case (1 cw d)
  then show ?case by (simp add: shrinks_refl)
next
  case (2 cw X Y queue d)
  from "2.prems" obtain revised d1 where rev: "revise cw d X Y = Inr (revised, d1)"
    by (auto split: sum.splits)
  note s1 = revise_shrinks[OF rev]
  show ?case
  proof (cases revised)
    case False
    with "2.prems" rev have "ac3_loop cw queue d1 = Inr (b, d')" by simp
    from "2.IH"(2)[OF rev refl _ this] False s1 show ?thesis
      by (auto intro: shrinks_trans)
  next
    case True
    with "2.prems" rev obtain cur where cur: "dict_get d1 X = Inr cur"
      by (auto split: sum.splits)
    show ?thesis
    proof (cases "length cur = 0")
      case empty: True
      with "2.prems" rev True cur have "d' = d1" by simp
      with s1 show ?thesis by simp
    next
      case False
      with "2.prems" rev True cur
      have "ac3_loop cw (queue @ map (\<lambda>Z. (Z, X)) (filter (\<lambda>Z. Z \<noteq> Y) (neighbors cw X))) d1
              = Inr (b, d')" by simp
      from "2.IH"(1)[OF rev refl _ cur _ this] True False s1 show ?thesis
        by (auto intro: shrinks_trans)
    qed
  qed
qed

lemma ac3_shrinks: "ac3 cw arcs d = Inr (b, d') \<Longrightarrow> shrinks d d'"
  by (simp add: ac3_def ac3_loop_shrinks)

lemma node_consistent_shrinks:
  "node_consistent cw d \<Longrightarrow> shrinks d d' \<Longrightarrow> node_consistent cw d'"
  unfolding node_consistent_def shrinks_def by (meson subsetD)

lemma node_consistent_enforce:
  assumes "enforce_node_consistency cw (init_domains cw) = Inr d1"
  shows "node_consistent cw d1"
  using enforce_node_consistency_init[of cw] assms by (auto simp: node_consistent_def)

text \<open>When \<^verbatim>\<open>ac3\<close> returns \<^verbatim>\<open>False\<close>, the domain it found empty is a slot's.\<close>

lemma ac3_loop_False:
  "ac3_loop cw queue d = Inr (False, d') \<Longrightarrow> wf_crossword cw \<Longrightarrow>
   \<forall>arc\<in>set queue. fst arc \<in> set (variables cw) \<Longrightarrow>
     \<exists>v\<in>set (variables cw). map_of d' v = Some []"
proof (induction cw queue d rule: ac3_loop.induct)
  case (1 cw d)
  then show ?case by simp
next
  case (2 cw X Y queue d)
  from "2.prems"(1) obtain revised d1 where rev: "revise cw d X Y = Inr (revised, d1)"
    by (auto split: sum.splits)
  from "2.prems"(3) have X: "X \<in> set (variables cw)" by simp
  show ?case
  proof (cases revised)
    case False
    with "2.prems"(1) rev have "ac3_loop cw queue d1 = Inr (False, d')" by simp
    from "2.IH"(2)[OF rev refl _ this "2.prems"(2)] False "2.prems"(3) show ?thesis by simp
  next
    case True
    with "2.prems"(1) rev obtain cur where cur: "dict_get d1 X = Inr cur"
      by (auto split: sum.splits)
    show ?thesis
    proof (cases "length cur = 0")
      case empty: True
      with "2.prems"(1) rev True cur have "d' = d1" by simp
      moreover from cur empty have "map_of d1 X = Some []"
        by (auto simp: dict_get_def split: option.splits)
      ultimately show ?thesis using X by blast
    next
      case False
      with "2.prems"(1) rev True cur
      have run: "ac3_loop cw (queue @ map (\<lambda>Z. (Z, X)) (filter (\<lambda>Z. Z \<noteq> Y) (neighbors cw X))) d1
              = Inr (False, d')" by simp
      have "\<forall>arc\<in>set (queue @ map (\<lambda>Z. (Z, X)) (filter (\<lambda>Z. Z \<noteq> Y) (neighbors cw X))).
              fst arc \<in> set (variables cw)"
        using "2.prems"(3) wf_crossword_neighbor(1)[OF "2.prems"(2) X] by auto
      from "2.IH"(1)[OF rev refl _ cur _ run "2.prems"(2) this] True False show ?thesis
        by simp
    qed
  qed
qed

lemma ac3_False:
  assumes "ac3 cw None d = Inr (False, d')" and "wf_crossword cw"
  shows "\<exists>v\<in>set (variables cw). map_of d' v = Some []"
proof -
  let ?queue = "concat (map (\<lambda>var. map (\<lambda>neighbor. (var, neighbor)) (neighbors cw var))
                          (variables cw))"
  from assms(1) have run: "ac3_loop cw ?queue d = Inr (False, d')" by (simp add: ac3_def)
  have "\<forall>arc\<in>set ?queue. fst arc \<in> set (variables cw)" by auto
  from ac3_loop_False[OF run assms(2) this] show ?thesis .
qed

lemma keys_ok_update:
  "keys_ok cw a \<Longrightarrow> var \<in> unassigned cw a \<Longrightarrow> keys_ok cw (AList.update var val a)"
  by (auto simp: keys_ok_def unassigned_def update_new_key)

lemma drawn_from_update:
  assumes "drawn_from d (AList.update var val a) s" and "map_of d var = Some ws"
    and "val \<in> set ws"
  shows "drawn_from d a s"
  using assms unfolding drawn_from_def update_conv'
  by (metis fun_upd_apply option.inject)

lemma backtrack_solution_drawn:
  shows "keys_ok cw a \<longrightarrow>
           (\<forall>s k. backtrack cw d a = Inr (Some s, d, k) \<longrightarrow> keys_ok cw s \<and> drawn_from d a s)"
    and "keys_ok cw a \<and> var \<in> unassigned cw a \<and>
         (\<exists>ws. map_of d var = Some ws \<and> set vals \<subseteq> set ws) \<longrightarrow>
           (\<forall>s k. backtrack_values cw d a var vals deepest = Inr (Some s, d, k)
              \<longrightarrow> keys_ok cw s \<and> drawn_from d a s)"
proof (induction a and a var vals deepest rule: backtrack_induct[where cw=cw and d=d])
  case (frame a)
  show ?case
  proof (intro allI impI)
    fix s k
    assume ok: "keys_ok cw a" and run: "backtrack cw d a = Inr (Some s, d, k)"
    from run show "keys_ok cw s \<and> drawn_from d a s"
    proof (cases rule: backtrack_cases')
      case complete
      with ok show ?thesis by (simp add: drawn_from_def)
    next
      case (search var vals deepest)
      from search(2) have var: "var \<in> unassigned cw a"
        using select_unassigned_variable_unassigned[of cw d a var] by (simp add: unassigned_def)
      from order_domain_values_result[OF search(3)] obtain ws where
        "map_of d var = Some ws" "set vals = set ws" by blast
      with frame[OF search(1,2,3)] ok var search(4) show ?thesis by blast
    qed
  qed
next
  case (nil a var deepest)
  show ?case by simp
next
  case (cons a var val rest deepest)
  show ?case
  proof (intro allI impI)
    fix s k
    assume h: "keys_ok cw a \<and> var \<in> unassigned cw a \<and>
         (\<exists>ws. map_of d var = Some ws \<and> set (val # rest) \<subseteq> set ws)"
      and run: "backtrack_values cw d a var (val # rest) deepest = Inr (Some s, d, k)"
    from h obtain ws where ok: "keys_ok cw a" and var: "var \<in> unassigned cw a"
      and ws: "map_of d var = Some ws" "val \<in> set ws" "set rest \<subseteq> set ws"
      by auto
    from var have del: "AList.delete var a = a" by (simp add: unassigned_def)
    from run show "keys_ok cw s \<and> drawn_from d a s"
    proof (cases rule: backtrack_values_cases')
      case (found solution depth)
      from cons(1)[OF found(1)] keys_ok_update[OF ok var] found(2,3)
      have "keys_ok cw s" "drawn_from d (AList.update var val a) s" by auto
      with drawn_from_update[OF _ ws(1,2)] show ?thesis by blast
    next
      case (failed depth)
      from cons(2)[OF failed(1,2)] failed(3) ok var ws del show ?thesis by auto
    next
      case inconsistent
      from cons(3)[OF inconsistent(1)] inconsistent(2) ok var ws del show ?thesis by auto
    qed
  qed
qed

lemma backtrack_empty_domain:
  assumes dv: "distinct (variables cw)" and v: "v \<in> set (variables cw)"
    and empty: "map_of d v = Some []"
  shows "backtrack cw d [] \<noteq> Inr (Some s, d', k)"
proof
  assume run: "backtrack cw d [] = Inr (Some s, d', k)"
  then have d': "d' = d" by (rule backtrack_frame(1))
  from run d' backtrack_result_shape(1)[of cw d "[]"]
  have "assignment_complete cw s" by blast
  then have len: "length (map fst s) = length (variables cw)"
    by (simp add: assignment_complete_def)
  have "keys_ok cw []" by (simp add: keys_ok_def)
  with run d' backtrack_solution_drawn(1)[of cw "[]" d]
  have ks: "keys_ok cw s" and dr: "drawn_from d [] s" by blast+
  from ks have "distinct (map fst s)" "set (map fst s) \<subseteq> set (variables cw)"
    by (simp_all add: keys_ok_def)
  with len dv have "set (map fst s) = set (variables cw)"
    by (metis List.finite_set card_subset_eq distinct_card)
  with v obtain w where "map_of s v = Some w"
    by (metis map_of_eq_None_iff not_Some_eq set_map)
  with dr have "\<exists>ws. map_of d v = Some ws \<and> w \<in> set ws"
    unfolding drawn_from_def by fastforce
  with empty show False by simp
qed

lemma cross_puzzle_fail_node:
  "enforce_node_consistency (cross_puzzle [''CAT'', ''OWL'']) (init_domains (cross_puzzle [''CAT'', ''OWL'']))
     = Inr [(slot_x, [''CAT'', ''OWL'']), (slot_y, [''CAT'', ''OWL''])]"
  by (simp add: enforce_node_consistency_def init_domains_def cross_puzzle_def dict_get_def
      set_remove_def)

lemma cross_puzzle_fail_ac3:
  "ac3 (cross_puzzle [''CAT'', ''OWL'']) None
     [(slot_x, [''CAT'', ''OWL'']), (slot_y, [''CAT'', ''OWL''])]
   = Inr (False, [(slot_x, []), (slot_y, [''CAT'', ''OWL''])])"
  by (simp add: ac3_def revise_def dict_get_def py_index_def set_remove_def cross_puzzle_def)

lemma cross_puzzle_fail_backtrack:
  "backtrack (cross_puzzle [''CAT'', ''OWL'']) [(slot_x, []), (slot_y, [''CAT'', ''OWL''])] []
   = Inr (None, [(slot_x, []), (slot_y, [''CAT'', ''OWL''])], 1)"
  by (simp add: backtrack.simps assignment_complete_def select_unassigned_variable_def
      order_domain_values_def cross_puzzle_def dict_get_def list_remove_def
      list_get_def get_mrv_def get_degree_def get_var_def get_cost_def)

lemma cross_puzzle_fail_solve: "solve (cross_puzzle [''CAT'', ''OWL'']) = Inr (None, 1)"
  by (simp add: solve_def cross_puzzle_fail_node cross_puzzle_fail_ac3
      cross_puzzle_fail_backtrack)

text \<open>
  Claim C1, as stated, fails: \<^verbatim>\<open>solve\<close> does not look at the value \<^verbatim>\<open>ac3\<close>
  returns. In the first puzzle with the words CAT and OWL, \<^verbatim>\<open>ac3\<close> empties the domain
  of the across slot and returns \<^verbatim>\<open>False\<close>; \<^verbatim>\<open>solve\<close> then calls \<^verbatim>\<open>backtrack\<close>,
  whose one frame returns \<^verbatim>\<open>None\<close>: the depth of the search is 1, not 0.
\<close>

theorem solve_searches_after_ac3_failure:
  "ac3 (cross_puzzle [''CAT'', ''OWL'']) None
     [(slot_x, [''CAT'', ''OWL'']), (slot_y, [''CAT'', ''OWL''])]
     = Inr (False, [(slot_x, []), (slot_y, [''CAT'', ''OWL''])]) \<and>
   backtrack (cross_puzzle [''CAT'', ''OWL'']) [(slot_x, []), (slot_y, [''CAT'', ''OWL''])] []
     = Inr (None, [(slot_x, []), (slot_y, [''CAT'', ''OWL''])], 1) \<and>
   solve (cross_puzzle [''CAT'', ''OWL'']) = Inr (None, 1) \<and>
   solve (cross_puzzle [''CAT'', ''OWL'']) \<noteq> Inr (None, 0)"
  by (simp add: cross_puzzle_fail_ac3 cross_puzzle_fail_backtrack cross_puzzle_fail_solve)

text \<open>
  Claim C1, amended. On a well-formed puzzle, when consistency enforcement leaves the
  domain of some slot empty (\<^verbatim>\<open>ac3\<close> returned \<^verbatim>\<open>False\<close>, or node consistency had
  emptied a domain, or a domain is empty in the store \<^verbatim>\<open>ac3\<close> leaves), \<^verbatim>\<open>solve\<close>
  returns \<^verbatim>\<open>None\<close>; it gets there by calling \<^verbatim>\<open>backtrack\<close> on the empty dictionary,
  which raises nothing and finds no solution.
\<close>

theorem solve_none_when_domain_empty:
  assumes "wf_crossword cw"
    and "enforce_node_consistency cw (init_domains cw) = Inr d1"
    and "ac3 cw None d1 = Inr (ok, d2)"
    and "\<not> ok \<or> (\<exists>v\<in>set (variables cw). map_of d1 v = Some []) \<or>
         (\<exists>v\<in>set (variables cw). map_of d2 v = Some [])"
  shows "\<exists>depth. solve cw = Inr (None, depth) \<and> 0 < depth"
proof -
  from assms(3) have sh: "shrinks d1 d2" by (rule ac3_shrinks)
  have "\<exists>v\<in>set (variables cw). map_of d2 v = Some []"
  proof -
    from assms(4) consider "\<not> ok"
      | "\<exists>v\<in>set (variables cw). map_of d1 v = Some []"
      | "\<exists>v\<in>set (variables cw). map_of d2 v = Some []"
      by blast
    then show ?thesis
    proof cases
      case 1
      with assms(3) have "ac3 cw None d1 = Inr (False, d2)" by simp
      then show ?thesis using assms(1) by (rule ac3_False)
    next
      case 2
      then obtain v where "v \<in> set (variables cw)" "map_of d1 v = Some []" by blast
      with sh show ?thesis by (fastforce simp: shrinks_def)
    next
      case 3
      then show ?thesis .
    qed
  qed
  then obtain v where v: "v \<in> set (variables cw)" "map_of d2 v = Some []" by blast
  from assms(1) have dv: "distinct (variables cw)" by (simp add: wf_crossword_def)
  have nc: "node_consistent cw d2"
    using node_consistent_shrinks[OF node_consistent_enforce[OF assms(2)] sh] .
  have "partial_assignment cw []" by (simp add: partial_assignment_def)
  with backtrack_returns_aux(1)[OF assms(1) nc, of "[]"] obtain r k where
    run: "backtrack cw d2 [] = Inr (r, d2, k)" by blast
  from backtrack_empty_domain[OF dv v] run have "r = None"
    by (cases r) auto
  moreover from run backtrack_result_shape(1)[of cw d2 "[]"] have "0 < k" by blast
  ultimately have "solve cw = Inr (None, k) \<and> 0 < k"
    using assms(2,3) run by (simp add: solve_def)
  then show ?thesis by blast
qed

theorem solve_none_when_domain_empty_witness:
  "wf_crossword (cross_puzzle [''CAT'', ''OWL'']) \<and>
   enforce_node_consistency (cross_puzzle [''CAT'', ''OWL''])
     (init_domains (cross_puzzle [''CAT'', ''OWL'']))
     = Inr [(slot_x, [''CAT'', ''OWL'']), (slot_y, [''CAT'', ''OWL''])] \<and>
   ac3 (cross_puzzle [''CAT'', ''OWL'']) None
     [(slot_x, [''CAT'', ''OWL'']), (slot_y, [''CAT'', ''OWL''])]
     = Inr (False, [(slot_x, []), (slot_y, [''CAT'', ''OWL''])]) \<and>
   (\<exists>depth. solve (cross_puzzle [''CAT'', ''OWL'']) = Inr (None, depth) \<and> 0 < depth) \<and>
   map_of [(slot_x, []), (slot_y, [])] slot_x = Some ([] :: string list) \<and>
   (\<exists>depth. solve (cross_puzzle [''AB'']) = Inr (None, depth) \<and> 0 < depth)"
proof -
  have 1: "\<exists>depth. solve (cross_puzzle [''CAT'', ''OWL'']) = Inr (None, depth) \<and> 0 < depth"
    using solve_none_when_domain_empty[OF wf_cross_puzzle cross_puzzle_fail_node
        cross_puzzle_fail_ac3]
    by simp
  have "ac3 (cross_puzzle [''AB'']) None [(slot_x, []), (slot_y, [])]
          = Inr (True, [(slot_x, []), (slot_y, [])])"
    by (simp add: ac3_def revise_def dict_get_def cross_puzzle_def)
  moreover have "\<exists>v\<in>set (variables (cross_puzzle [''AB''])).
                   map_of [(slot_x, []), (slot_y, [])] v = Some ([] :: string list)"
    by (simp add: cross_puzzle_def)
  ultimately
  have 2: "\<exists>depth. solve (cross_puzzle [''AB'']) = Inr (None, depth) \<and> 0 < depth"
    using solve_none_when_domain_empty[OF wf_cross_puzzle cross_puzzle_empty_node]
    by blast
  from wf_cross_puzzle cross_puzzle_fail_node cross_puzzle_fail_ac3 1 2 show ?thesis
    by simp
qed

end
